theory Spec2Isabelle
  imports Complex_Main "HOL-Library.Multiset" "HOL-Library.Sublist"
begin

section \<open>Numbers and strings\<close>

text \<open>
  The team-handicap calculator computes with JavaScript numbers, which are IEEE 754
  binary64 values: a finite number, one of the two infinities, or \<open>NaN\<close>. A finite
  number is modelled by its value, a rational. The two zeros are one value here:
  \<open>===\<close>, the comparisons, \<open>Math.min\<close>, \<open>Math.abs\<close> and the results of \<open>+\<close> and \<open>-\<close>
  that the calculator uses do not tell them apart.
\<close>

datatype number = Fin rat | PosInf | NegInf | NaN

text \<open>\<open>exponent q\<close> is the integer \<open>e\<close> with \<open>2^e \<le> q < 2^(e+1)\<close>, for a positive \<open>q\<close>.\<close>

function exponent :: "rat \<Rightarrow> int" where
  "exponent q = (if q \<le> 0 then 0
                 else if q \<ge> 2 then exponent (q / 2) + 1
                 else if q < 1 then exponent (q * 2) - 1
                 else 0)"
  by pat_completeness auto
termination
proof (relation "measure (\<lambda>q. 2 * nat \<lceil>1 / q\<rceil> + nat \<lfloor>q\<rfloor>)")
  show "wf (measure (\<lambda>q::rat. 2 * nat \<lceil>1 / q\<rceil> + nat \<lfloor>q\<rfloor>))" by simp
next
  fix q :: rat
  assume "\<not> q \<le> 0" and q: "2 \<le> q"
  have a: "\<lceil>1 / (q / 2)\<rceil> = 1"
    using q by (intro ceiling_unique) (simp_all add: field_simps)
  have b: "\<lceil>1 / q\<rceil> = 1"
    using q by (intro ceiling_unique) (simp_all add: field_simps)
  have "q / 2 \<le> q - 1" using q by simp
  then have "\<lfloor>q / 2\<rfloor> \<le> \<lfloor>q - 1\<rfloor>" by (rule floor_mono)
  then have c: "\<lfloor>q / 2\<rfloor> < \<lfloor>q\<rfloor>" by simp
  have d: "0 < \<lfloor>q\<rfloor>" using q by simp
  have "2 * nat \<lceil>1 / (q / 2)\<rceil> + nat \<lfloor>q / 2\<rfloor> < 2 * nat \<lceil>1 / q\<rceil> + nat \<lfloor>q\<rfloor>"
    unfolding a b using c d by linarith
  then show "(q / 2, q) \<in> measure (\<lambda>q. 2 * nat \<lceil>1 / q\<rceil> + nat \<lfloor>q\<rfloor>)"
    by (simp only: in_measure)
next
  fix q :: rat
  assume p: "\<not> q \<le> 0" and "\<not> 2 \<le> q" and q: "q < 1"
  have f: "\<lfloor>q\<rfloor> = 0" using p q by (intro floor_unique) simp_all
  have "q * 2 < 2" using q by simp
  then have g: "\<lfloor>q * 2\<rfloor> \<le> 1" by (simp add: floor_less_iff [symmetric] del: floor_less_iff)
  have "1 < 1 / q" using p q by (simp add: field_simps)
  then have c2: "2 \<le> \<lceil>1 / q\<rceil>" by (simp add: less_ceiling_iff [symmetric] del: less_ceiling_iff)
  have "1 / (q * 2) = (1 / q) / 2" by simp
  also have "\<dots> \<le> of_int \<lceil>1 / q\<rceil> / 2" by (simp add: divide_right_mono)
  also have "\<dots> \<le> of_int (\<lceil>1 / q\<rceil> - 1)" using c2 by simp
  finally have "\<lceil>1 / (q * 2)\<rceil> \<le> \<lceil>1 / q\<rceil> - 1" by (rule ceiling_le)
  moreover have "0 \<le> \<lfloor>q * 2\<rfloor>" using p by simp
  ultimately have "2 * nat \<lceil>1 / (q * 2)\<rceil> + nat \<lfloor>q * 2\<rfloor> < 2 * nat \<lceil>1 / q\<rceil> + nat \<lfloor>q\<rfloor>"
    unfolding f using g c2 by linarith
  then show "(q * 2, q) \<in> measure (\<lambda>q. 2 * nat \<lceil>1 / q\<rceil> + nat \<lfloor>q\<rfloor>)"
    by (simp only: in_measure)
qed

declare exponent.simps [simp del]

text \<open>The nearest integer, a tie going to the even one.\<close>

definition round_even :: "rat \<Rightarrow> int" where
  "round_even x = (let f = \<lfloor>x\<rfloor>; r = x - of_int f
                   in if r < 1/2 then f else if r > 1/2 then f + 1
                      else if even f then f else f + 1)"

text \<open>
  The spacing of the binary64 numbers around \<open>q\<close>: 53 significant bits, and the spacing
  of the subnormal numbers below \<open>2^-1022\<close>.
\<close>

definition ulp :: "rat \<Rightarrow> rat" where
  "ulp q = 2 powi (max (exponent \<bar>q\<bar>) (- 1022) - 52)"

definition nearest :: "rat \<Rightarrow> rat" where
  "nearest q = of_int (round_even (q / ulp q)) * ulp q"

text \<open>
  The rounding of every arithmetic operation, and the value of a decimal literal: the
  binary64 number nearest to the exact value, ties to even, and an infinity when the
  rounded value is beyond the largest finite number.
\<close>

definition round64 :: "rat \<Rightarrow> number" where
  "round64 q = (let r = nearest q
                in if r \<ge> 2 ^ 1024 then PosInf
                   else if r \<le> - (2 ^ 1024) then NegInf
                   else Fin r)"

text \<open>Unary minus, \<open>a + b\<close>, \<open>a - b\<close> (which is \<open>a + (-b)\<close>) and \<open>Math.abs\<close>.\<close>

fun js_neg :: "number \<Rightarrow> number" where
  "js_neg (Fin x) = Fin (- x)"
| "js_neg PosInf = NegInf"
| "js_neg NegInf = PosInf"
| "js_neg NaN = NaN"

fun js_add :: "number \<Rightarrow> number \<Rightarrow> number" where
  "js_add (Fin x) (Fin y) = round64 (x + y)"
| "js_add NaN b = NaN"
| "js_add a NaN = NaN"
| "js_add PosInf NegInf = NaN"
| "js_add NegInf PosInf = NaN"
| "js_add PosInf b = PosInf"
| "js_add NegInf b = NegInf"
| "js_add (Fin x) b = b"

definition js_sub :: "number \<Rightarrow> number \<Rightarrow> number" where
  "js_sub a b = js_add a (js_neg b)"

fun js_abs :: "number \<Rightarrow> number" where
  "js_abs (Fin x) = Fin \<bar>x\<bar>"
| "js_abs PosInf = PosInf"
| "js_abs NegInf = PosInf"
| "js_abs NaN = NaN"

text \<open>
  \<open>a < b\<close>, \<open>a >= b\<close>, \<open>a === b\<close> and \<open>Math.min(a, b)\<close>: a comparison with \<open>NaN\<close> is
  false, and the minimum with \<open>NaN\<close> is \<open>NaN\<close>.
\<close>

fun js_less :: "number \<Rightarrow> number \<Rightarrow> bool" where
  "js_less (Fin x) (Fin y) = (x < y)"
| "js_less NaN b = False"
| "js_less a NaN = False"
| "js_less NegInf b = (b \<noteq> NegInf)"
| "js_less a PosInf = (a \<noteq> PosInf)"
| "js_less a b = False"

definition js_ge :: "number \<Rightarrow> number \<Rightarrow> bool" where
  "js_ge a b = (a \<noteq> NaN \<and> b \<noteq> NaN \<and> \<not> js_less a b)"

definition strict_eq :: "number \<Rightarrow> number \<Rightarrow> bool" where
  "strict_eq a b = (a \<noteq> NaN \<and> a = b)"

definition js_min :: "number \<Rightarrow> number \<Rightarrow> number" where
  "js_min a b = (if a = NaN \<or> b = NaN then NaN else if js_less b a then b else a)"

text \<open>
  The class rounding computes nothing: it compares a handicap with the bounds of a class
  and returns the handicap or a bound. There a handicap is a finite number and is
  modelled by its value.
  Event names are byte strings; \<open>toLowerCase\<close> maps the letters A to Z and leaves
  every other byte as it is.
\<close>

definition toLowerCase_char :: "char \<Rightarrow> char" where
  "toLowerCase_char c =
     (let n = (of_char c :: nat) in if 65 \<le> n \<and> n \<le> 90 then char_of (n + 32) else c)"

definition toLowerCase :: "string \<Rightarrow> string" where
  "toLowerCase s = map toLowerCase_char s"

fun startsWith :: "string \<Rightarrow> string \<Rightarrow> bool" where
  "startsWith s [] = True"
| "startsWith [] (d # ds) = False"
| "startsWith (c # cs) (d # ds) = (c = d \<and> startsWith cs ds)"

text \<open>\<open>s.includes(t)\<close>: \<open>t\<close> occurs in \<open>s\<close> as a contiguous substring.\<close>

fun includes_str :: "string \<Rightarrow> string \<Rightarrow> bool" where
  "includes_str [] t = (t = [])"
| "includes_str (c # cs) t = (startsWith (c # cs) t \<or> includes_str cs t)"

section \<open>Team handicap (teamHandicap.js)\<close>

text \<open>
  \<open>ADJUSTMENT_TABLE\<close>: an object whose keys are the integers 1 to 60, written here
  with the decimal literals of the source. Each literal denotes the binary64 number
  nearest to it.
\<close>

definition ADJUSTMENT_TABLE_literals :: "(int \<times> rat) list" where
  "ADJUSTMENT_TABLE_literals =
    [(1, 0.5), (2, 1.0), (3, 1.4), (4, 1.8), (5, 2.1), (6, 2.4), (7, 2.6), (8, 2.8), (9, 3.0), (10, 3.2),
     (11, 3.4), (12, 3.6), (13, 3.8), (14, 4.0), (15, 4.2), (16, 4.4), (17, 4.6), (18, 4.8), (19, 5.0), (20, 5.2),
     (21, 5.4), (22, 5.6), (23, 5.8), (24, 6.0), (25, 6.2), (26, 6.4), (27, 6.6), (28, 6.8), (29, 7.0), (30, 7.2),
     (31, 7.4), (32, 7.6), (33, 7.8), (34, 8.0), (35, 8.2), (36, 8.4), (37, 8.6), (38, 8.8), (39, 9.0), (40, 9.2),
     (41, 9.4), (42, 9.6), (43, 9.8), (44, 10.0), (45, 10.2), (46, 10.4), (47, 10.6), (48, 10.8), (49, 10.9), (50, 11.0),
     (51, 11.1), (52, 11.2), (53, 11.3), (54, 11.4), (55, 11.5), (56, 11.6), (57, 11.7), (58, 11.8), (59, 11.9), (60, 12.0)]"

definition ADJUSTMENT_TABLE :: "(int \<times> number) list" where
  "ADJUSTMENT_TABLE = map (\<lambda>(key, literal). (key, round64 literal)) ADJUSTMENT_TABLE_literals"

text \<open>
  A lookup \<open>ADJUSTMENT_TABLE[d]\<close> turns the number \<open>d\<close> into its property name, so it
  finds an entry exactly when \<open>d\<close> is one of the integers 1 to 60, and is \<open>undefined\<close>
  otherwise.
\<close>

definition table_lookup :: "number \<Rightarrow> number option" where
  "table_lookup d =
     (case d of
        Fin x \<Rightarrow> if of_int \<lfloor>x\<rfloor> = x then map_of ADJUSTMENT_TABLE \<lfloor>x\<rfloor> else None
      | _ \<Rightarrow> None)"

text \<open>A player object as the calculator reads it: either spelling of each handicap field.\<close>

record player =
  singlesHCAP :: "number option"
  singlesHandicap :: "number option"
  doublesHCAP :: "number option"
  doublesHandicap :: "number option"

text \<open>\<open>a ?? b\<close>: the left operand unless it is null or undefined.\<close>

definition nullish :: "'a option \<Rightarrow> 'a option \<Rightarrow> 'a option" where
  "nullish a b = (case a of Some v \<Rightarrow> Some v | None \<Rightarrow> b)"

definition getPlayerEffectiveHandicap :: "player \<Rightarrow> number option" where
  "getPlayerEffectiveHandicap p =
     (let singles = nullish (singlesHCAP p) (singlesHandicap p);
          doubles = nullish (doublesHCAP p) (doublesHandicap p)
      in case (singles, doubles) of
           (Some s, Some d) \<Rightarrow> Some (js_min s d)
         | _ \<Rightarrow> nullish singles doubles)"

definition getAdjustmentFactor :: "number \<Rightarrow> number" where
  "getAdjustmentFactor difference =
     (if strict_eq difference (Fin 0) then Fin 0
      else if js_ge difference (Fin 60) then Fin 12.0
      else (case table_lookup difference of Some v \<Rightarrow> v | None \<Rightarrow> Fin 12.0))"

record team_result =
  teamHandicap :: number
  playerAHandicap :: number
  playerBHandicap :: number
  difference :: number
  adjustment :: number
  betterHandicap :: number

text \<open>
  The failure object \<open>{success: false, error, playerAHandicap, playerBHandicap}\<close> is
  \<open>Inl\<close> of the message and the two effective handicaps; success is \<open>Inr\<close>.
\<close>

type_synonym team_failure = "string \<times> number option \<times> number option"

definition calculateTeamHandicap :: "player \<Rightarrow> player \<Rightarrow> team_failure + team_result" where
  "calculateTeamHandicap playerA playerB =
     (case (getPlayerEffectiveHandicap playerA, getPlayerEffectiveHandicap playerB) of
        (Some handicapA, Some handicapB) \<Rightarrow>
          (let diff = js_abs (js_sub handicapA handicapB);
               adj = getAdjustmentFactor diff;
               better = js_min handicapA handicapB
           in Inr \<lparr> teamHandicap = js_add better adj,
                    playerAHandicap = handicapA,
                    playerBHandicap = handicapB,
                    difference = diff,
                    adjustment = adj,
                    betterHandicap = better \<rparr>)
      | (a, b) \<Rightarrow> Inl (''Missing handicap data for one or both players'', a, b))"

section \<open>Class rounding (handicapRounding.js)\<close>

record bounds =
  min_val :: "rat option"
  max_val :: "rat option"

text \<open>\<open>CLASS_BOUNDS\<close> in the order \<open>Object.entries\<close> lists it: the order of insertion.\<close>

definition CLASS_BOUNDS :: "(string \<times> bounds option) list" where
  "CLASS_BOUNDS =
    [(''4th'', Some \<lparr> min_val = Some 40.0, max_val = Some 49.0 \<rparr>),
     (''4th class'', Some \<lparr> min_val = Some 40.0, max_val = Some 49.0 \<rparr>),
     (''3rd'', Some \<lparr> min_val = Some 30.0, max_val = Some 39.0 \<rparr>),
     (''3rd class'', Some \<lparr> min_val = Some 30.0, max_val = Some 39.0 \<rparr>),
     (''2nd'', Some \<lparr> min_val = Some 20.0, max_val = Some 29.0 \<rparr>),
     (''2nd class'', Some \<lparr> min_val = Some 20.0, max_val = Some 29.0 \<rparr>),
     (''1st'', Some \<lparr> min_val = None, max_val = Some 19.0 \<rparr>),
     (''1st class'', Some \<lparr> min_val = None, max_val = Some 19.0 \<rparr>),
     (''club'', None),
     (''club championship'', None),
     (''championship'', None),
     (''champ'', None),
     (''champs'', None)]"

text \<open>The loop over the entries: the first key with bounds that the name includes.\<close>

fun find_bounds :: "string \<Rightarrow> (string \<times> bounds option) list \<Rightarrow> bounds option" where
  "find_bounds lowerName [] = None"
| "find_bounds lowerName ((key, b) # rest) =
     (if b \<noteq> None \<and> includes_str lowerName key then b else find_bounds lowerName rest)"

definition getEventClassBounds :: "string \<Rightarrow> bounds option" where
  "getEventClassBounds eventName =
     (if eventName = [] then None
      else let lowerName = toLowerCase eventName in
        if includes_str lowerName ''club'' \<or> includes_str lowerName ''championship''
           \<or> includes_str lowerName ''champ''
        then None
        else find_bounds lowerName CLASS_BOUNDS)"

definition roundHandicapForClass :: "rat \<Rightarrow> bounds option \<Rightarrow> rat" where
  "roundHandicapForClass handicap bnds =
     (case bnds of
        None \<Rightarrow> handicap
      | Some b \<Rightarrow>
          if handicap < 0 then handicap
          else if handicap \<le> 19 then handicap
          else
            let rounded = handicap;
                rounded = (case max_val b of
                             Some m \<Rightarrow> if rounded > m then m else rounded
                           | None \<Rightarrow> rounded);
                rounded = (case min_val b of
                             Some m \<Rightarrow> if rounded < m then m else rounded
                           | None \<Rightarrow> rounded)
            in rounded)"

text \<open>
  The rounding step of \<open>processHandicapForDisplay\<close>: the bounds of the event, then the
  rounding (the formatting of the number as text is left out).
\<close>

definition roundForEvent :: "rat \<Rightarrow> string \<Rightarrow> rat" where
  "roundForEvent handicap eventName =
     roundHandicapForClass handicap (getEventClassBounds eventName)"


text \<open>The object literal \<open>{ doublesHCAP: h }\<close> that \<open>validateAlgorithm\<close> builds its players from.\<close>

definition doubles_player :: "number \<Rightarrow> player" where
  "doubles_player h = \<lparr> singlesHCAP = None, singlesHandicap = None,
                        doublesHCAP = Some h, doublesHandicap = None \<rparr>"

text \<open>\<open>validateAlgorithm().isValid\<close>: the worked IRTPA example, 32 and 45.\<close>

definition validateAlgorithm :: bool where
  "validateAlgorithm =
     (case calculateTeamHandicap (doubles_player (Fin 32)) (doubles_player (Fin 45)) of
        Inr result \<Rightarrow> strict_eq (difference result) (Fin 13)
                        \<and> strict_eq (adjustment result) (round64 3.8)
                        \<and> strict_eq (teamHandicap result) (round64 35.8)
      | Inl failure \<Rightarrow> False)"

section \<open>Placement engine (the play-in version)\<close>

subsection \<open>Participants, slot arrays, randomness\<close>

text \<open>
  A participant object. The handicap fields are carried along by the spread copies
  (their names have a suffix here, the calculator's player record owns the plain ones);
  \<open>rawEntry\<close>, which the engine never reads, is left out.
  A missing \<open>isBye\<close> is falsy, hence \<open>False\<close>; a missing \<open>availability\<close> is \<open>None\<close>.
\<close>

record participant =
  name :: string
  isBye :: bool
  seed :: "nat option"
  availability :: "string option"
  singlesHandicap_p :: "number option"
  doublesHandicap_p :: "number option"

text \<open>
  A cell of a JavaScript array of participants: \<open>null\<close>, a participant object, or
  \<open>undefined\<close> (a hole, or a read past the end).
\<close>

datatype cell = Null | Undefined | Cell participant

text \<open>\<open>xs[i]\<close> and \<open>xs[i] = v\<close>. A write at or past the end extends the array and leaves holes.\<close>

definition js_get :: "cell list \<Rightarrow> nat \<Rightarrow> cell" where
  "js_get xs i = (if i < length xs then xs ! i else Undefined)"

definition js_set :: "cell list \<Rightarrow> nat \<Rightarrow> cell \<Rightarrow> cell list" where
  "js_set xs i v =
     (if i < length xs then xs[i := v]
      else xs @ replicate (i - length xs) Undefined @ [v])"

text \<open>
  The source of randomness: an arbitrary sequence of draws and a position in it.
  \<open>Math.floor(Math.random() * n)\<close> is a number below \<open>n\<close>; which one is up to the sequence.
\<close>

type_synonym rng = "(nat \<Rightarrow> nat) \<times> nat"

definition random_below :: "nat \<Rightarrow> rng \<Rightarrow> nat \<times> rng" where
  "random_below n g = (case g of (draws, k) \<Rightarrow> (draws k mod n, (draws, Suc k)))"

text \<open>The sequence whose draws are all 0, for running the engine on a concrete input.\<close>

definition zero_draws :: rng where
  "zero_draws = (\<lambda>k. 0, 0)"

text \<open>Fisher-Yates: \<open>i\<close> runs from the last index down to 1, swapping with a random \<open>j \<le> i\<close>.\<close>

fun shuffle_loop :: "nat \<Rightarrow> 'a list \<Rightarrow> rng \<Rightarrow> 'a list \<times> rng" where
  "shuffle_loop 0 arr g = (arr, g)"
| "shuffle_loop (Suc i) arr g =
     (case random_below (Suc i + 1) g of
        (j, g') \<Rightarrow> shuffle_loop i (arr[Suc i := arr ! j, j := arr ! Suc i]) g')"

definition shuffle :: "'a list \<Rightarrow> rng \<Rightarrow> 'a list \<times> rng" where
  "shuffle array g = shuffle_loop (length array - 1) array g"

definition createBye :: participant where
  "createBye = \<lparr> name = ''BYE'', isBye = True, seed = None, availability = None,
                 singlesHandicap_p = None, doublesHandicap_p = None \<rparr>"

text \<open>\<open>{ ...p, seed: pos + 1 }\<close>\<close>

definition seeded_at :: "participant \<Rightarrow> nat \<Rightarrow> cell" where
  "seeded_at p pos = Cell (p\<lparr> seed := Some (pos + 1) \<rparr>)"

subsection \<open>The result object\<close>

text \<open>
  The \<open>stats\<close> object, its keys prefixed with \<open>st_\<close>; a key that a path does not set is
  \<open>None\<close> (or \<open>False\<close>).
\<close>

record stats =
  st_dayPlayers :: nat
  st_nightPlayers :: nat
  st_playInMatches :: nat
  st_playInParticipants :: "nat option"
  st_byeToRound2 :: "int option"
  st_dayPlayInMatches :: "nat option"
  st_nightPlayInMatches :: "nat option"
  st_fullBracket :: bool
  st_randomPlacement :: bool
  st_byeCount :: int

text \<open>
  Every placement path returns \<open>success: true\<close>; the record holds the other keys
  (\<open>bracketSize\<close> under the name \<open>bracketSize_out\<close>).
\<close>

record placement =
  placed :: "cell list"
  participantCount :: nat
  bracketSize_out :: nat
  stats :: stats

subsection \<open>The loops over match slots\<close>

text \<open>
  A play-in loop (\<open>for (const slot of ...PlayInSlots)\<close>): two players per match slot, as
  long as the group lasts. \<open>base\<close> is 0 for the Day section and for the random placement,
  \<open>halfSize\<close> for the Night section.
\<close>

fun placePlayIns :: "nat \<Rightarrow> participant list \<Rightarrow> nat list \<Rightarrow> cell list \<Rightarrow> nat \<Rightarrow> cell list" where
  "placePlayIns base grp [] result idx = result"
| "placePlayIns base grp (slot # slots) result idx =
     (let pos1 = base + slot * 2;
          pos2 = base + slot * 2 + 1;
          (result1, idx1) =
             (if idx < length grp then (js_set result pos1 (seeded_at (grp ! idx) pos1), idx + 1)
              else (result, idx));
          (result2, idx2) =
             (if idx1 < length grp then (js_set result1 pos2 (seeded_at (grp ! idx1) pos2), idx1 + 1)
              else (result1, idx1))
      in placePlayIns base grp slots result2 idx2)"

text \<open>
  A bye loop (\<open>for (const slot of ...ByeSlots)\<close>): one player and one BYE per match slot,
  and two BYEs once the group is used up.
\<close>

fun placeByes :: "nat \<Rightarrow> participant list \<Rightarrow> nat list \<Rightarrow> cell list \<Rightarrow> nat \<Rightarrow> cell list" where
  "placeByes base grp [] result idx = result"
| "placeByes base grp (slot # slots) result idx =
     (let pos1 = base + slot * 2;
          pos2 = base + slot * 2 + 1
      in if idx < length grp
         then placeByes base grp slots
                (js_set (js_set result pos1 (seeded_at (grp ! idx) pos1)) pos2 (Cell createBye))
                (idx + 1)
         else placeByes base grp slots
                (js_set (js_set result pos1 (Cell createBye)) pos2 (Cell createBye))
                idx)"

text \<open>The safety net: \<open>for (i < bracketSize) if (result[i] === null) result[i] = createBye()\<close>.\<close>

definition fillNulls :: "nat \<Rightarrow> cell list \<Rightarrow> cell list" where
  "fillNulls bracketSize result =
     fold (\<lambda>i r. if js_get r i = Null then js_set r i (Cell createBye) else r)
          [0..<bracketSize] result"

text \<open>\<open>Array.from({ length: n }, (_, i) => i)\<close>\<close>

definition matchSlots :: "nat \<Rightarrow> nat list" where
  "matchSlots n = [0..<n]"

subsection \<open>Random placement without availability data\<close>

text \<open>
  \<open>bracketSize / 2\<close> is written \<open>div\<close>: the engine is only entered with a bracket size
  that \<open>seedParticipants\<close> has accepted, all of them multiples of four.
  Both branches of the source begin by shuffling the same list of match slots; the
  shuffle is written once, before the test, and takes the same draws.
\<close>

definition pureRandomPlayInPlacement ::
    "participant list \<Rightarrow> nat \<Rightarrow> nat \<Rightarrow> rng \<Rightarrow> placement" where
  "pureRandomPlayInPlacement participants bracketSize playInMatchCount g =
     (let (shuffled, g1) = shuffle participants g;
          result = replicate bracketSize Null;
          round1Matches = bracketSize div 2;
          (shuffledSlots, g2) = shuffle (matchSlots round1Matches) g1;
          result =
            (if playInMatchCount \<le> 0 then
               let result =
                     fold (\<lambda>i r.
                             let slot = shuffledSlots ! i; pos1 = slot * 2
                             in js_set (js_set r pos1 (seeded_at (shuffled ! i) pos1))
                                       (pos1 + 1) (Cell createBye))
                          [0..<min (length shuffled) round1Matches] result
               in fold (\<lambda>i r.
                          let slot = shuffledSlots ! i; pos1 = slot * 2
                          in js_set (js_set r pos1 (Cell createBye)) (pos1 + 1) (Cell createBye))
                       [length shuffled..<round1Matches] result
             else
               let playInParticipantCount = playInMatchCount * 2;
                   playInGroup = take playInParticipantCount shuffled;
                   byeGroup = drop playInParticipantCount shuffled;
                   playInSlots = take playInMatchCount shuffledSlots;
                   byeSlots = drop playInMatchCount shuffledSlots;
                   result = placePlayIns 0 playInGroup playInSlots result 0
               in placeByes 0 byeGroup byeSlots result 0);
          result = fillNulls bracketSize result
      in \<lparr> placed = result,
           participantCount = length participants,
           bracketSize_out = bracketSize,
           stats = \<lparr> st_dayPlayers = 0, st_nightPlayers = 0,
                     st_playInMatches = playInMatchCount,
                     st_playInParticipants = None, st_byeToRound2 = None,
                     st_dayPlayInMatches = None, st_nightPlayInMatches = None,
                     st_fullBracket = False, st_randomPlacement = True,
                     st_byeCount = int bracketSize - int (length participants) \<rparr> \<rparr>)"

subsection \<open>The full bracket\<close>

text \<open>\<open>while (nightOverflowIdx < bracketSize && result[nightOverflowIdx] !== null) nightOverflowIdx++\<close>\<close>

function nextEmpty :: "cell list \<Rightarrow> nat \<Rightarrow> nat \<Rightarrow> nat" where
  "nextEmpty result bracketSize idx =
     (if idx < bracketSize \<and> js_get result idx \<noteq> Null
      then nextEmpty result bracketSize (idx + 1) else idx)"
  by pat_completeness auto
termination
  by (relation "measure (\<lambda>(result, bracketSize, idx). bracketSize - idx)") auto

definition placeFullBracket :: "participant list \<Rightarrow> nat \<Rightarrow> rng \<Rightarrow> placement" where
  "placeFullBracket participants bracketSize g =
     (let dayPlayers = filter (\<lambda>p. availability p = Some ''D'') participants;
          nightPlayers = filter (\<lambda>p. availability p \<noteq> Some ''D'' \<and> availability p = Some ''N'')
                         participants;
          hasAvailability = (length dayPlayers > 0 \<or> length nightPlayers > 0)
      in if \<not> hasAvailability then
           let (shuffled, g1) = shuffle participants g;
               result = map (\<lambda>(i, p). seeded_at p i) (enumerate 0 shuffled)
           in \<lparr> placed = result,
                participantCount = length participants,
                bracketSize_out = bracketSize,
                stats = \<lparr> st_dayPlayers = 0, st_nightPlayers = 0,
                          st_playInMatches = bracketSize div 2,
                          st_playInParticipants = None, st_byeToRound2 = None,
                          st_dayPlayInMatches = None, st_nightPlayInMatches = None,
                          st_fullBracket = True, st_randomPlacement = False,
                          st_byeCount = 0 \<rparr> \<rparr>
         else
           let (shuffledDay, g1) = shuffle dayPlayers g;
               (shuffledNight, g2) = shuffle nightPlayers g1;
               result = replicate bracketSize Null;
               halfSize = bracketSize div 2;
               result = fold (\<lambda>i r. js_set r i (seeded_at (shuffledDay ! i) i))
                             [0..<min (length shuffledDay) halfSize] result;
               result = fold (\<lambda>i r. let pos = halfSize + i
                                      in js_set r pos (seeded_at (shuffledNight ! i) pos))
                             [0..<min (length shuffledNight) halfSize] result;
               overflowCursor = (if length shuffledDay < halfSize then length shuffledDay
                                 else halfSize);
               (result, overflowCursor) =
                  fold (\<lambda>i (r, cursor).
                          if js_get r cursor = Null
                          then (js_set r cursor (seeded_at (shuffledDay ! i) cursor), cursor + 1)
                          else (r, cursor))
                       [halfSize..<length shuffledDay] (result, overflowCursor);
               nightOverflowIdx = halfSize;
               (result, nightOverflowIdx) =
                  fold (\<lambda>i (r, idx).
                          let idx = nextEmpty r bracketSize idx
                          in if idx < bracketSize
                             then (js_set r idx (seeded_at (shuffledNight ! i) idx), idx)
                             else (r, idx))
                       [halfSize..<length shuffledNight] (result, nightOverflowIdx)
           in \<lparr> placed = result,
                participantCount = length participants,
                bracketSize_out = bracketSize,
                stats = \<lparr> st_dayPlayers = length dayPlayers, st_nightPlayers = length nightPlayers,
                          st_playInMatches = bracketSize div 2,
                          st_playInParticipants = None, st_byeToRound2 = None,
                          st_dayPlayInMatches = None, st_nightPlayInMatches = None,
                          st_fullBracket = True, st_randomPlacement = False,
                          st_byeCount = 0 \<rparr> \<rparr>)"

subsection \<open>Placement by availability\<close>

text \<open>
  \<open>Math.round(matchCount * (part / totalPlayers))\<close>: the nearest integer, halves going
  up, computed on the exact quotient. The double-precision product differs from the
  quotient by far less than the quotient differs from a half, unless the quotient is a
  half exactly; in the runs below it is 3 and 15/7.
\<close>

definition round_share :: "nat \<Rightarrow> nat \<Rightarrow> nat \<Rightarrow> nat" where
  "round_share matchCount part totalPlayers =
     (2 * matchCount * part + totalPlayers) div (2 * totalPlayers)"

definition placeByAvailability :: "participant list \<Rightarrow> nat \<Rightarrow> rng \<Rightarrow> placement" where
  "placeByAvailability participants bracketSize g =
     (let totalPlayers = length participants;
          round1Matches = bracketSize div 2;
          round2Slots = round1Matches
      in if totalPlayers = bracketSize then placeFullBracket participants bracketSize g
         else
           let playInMatchCount = nat (max 0 (int totalPlayers - int round2Slots));
               playInParticipantCount = playInMatchCount * 2;
               byeToRound2Count = int totalPlayers - int playInParticipantCount;
               dayPlayers = filter (\<lambda>p. availability p = Some ''D'') participants;
               nightPlayers = filter (\<lambda>p. availability p \<noteq> Some ''D'' \<and> availability p = Some ''N'')
                              participants;
               hasAvailability = (length dayPlayers > 0 \<or> length nightPlayers > 0)
           in if \<not> hasAvailability
              then pureRandomPlayInPlacement participants bracketSize playInMatchCount g
              else
                let (shuffledDay, g1) = shuffle dayPlayers g;
                    (shuffledNight, g2) = shuffle nightPlayers g1;
                    dayPlayInMatches = round_share playInMatchCount (length dayPlayers) totalPlayers;
                    nightPlayInMatches = playInMatchCount - dayPlayInMatches;
                    dayPlayInPlayers = min (dayPlayInMatches * 2) (length dayPlayers);
                    nightPlayInPlayers = min (nightPlayInMatches * 2) (length nightPlayers);
                    actualDayPlayIn = dayPlayInPlayers;
                    actualNightPlayIn = nightPlayInPlayers;
                    totalPlayInNeeded = playInParticipantCount;
                    (actualDayPlayIn, actualNightPlayIn) =
                       (if actualDayPlayIn + actualNightPlayIn < totalPlayInNeeded then
                          let shortfall = totalPlayInNeeded - (actualDayPlayIn + actualNightPlayIn)
                          in if length dayPlayers - actualDayPlayIn \<ge> shortfall
                             then (actualDayPlayIn + shortfall, actualNightPlayIn)
                             else if length nightPlayers - actualNightPlayIn \<ge> shortfall
                             then (actualDayPlayIn, actualNightPlayIn + shortfall)
                             else (actualDayPlayIn, actualNightPlayIn)
                        else (actualDayPlayIn, actualNightPlayIn));
                    dayPlayInGroup = take actualDayPlayIn shuffledDay;
                    dayByeGroup = drop actualDayPlayIn shuffledDay;
                    nightPlayInGroup = take actualNightPlayIn shuffledNight;
                    nightByeGroup = drop actualNightPlayIn shuffledNight;
                    result = replicate bracketSize Null;
                    halfSize = bracketSize div 2;
                    dayMatchCount = round1Matches div 2;
                    nightMatchCount = round1Matches div 2;
                    (shuffledDaySlots, g3) = shuffle (matchSlots dayMatchCount) g2;
                    dayPlayInSlots = take ((actualDayPlayIn + 1) div 2) shuffledDaySlots;
                    dayByeSlots = drop ((actualDayPlayIn + 1) div 2) shuffledDaySlots;
                    (shuffledNightSlots, g4) = shuffle (matchSlots nightMatchCount) g3;
                    nightPlayInSlots = take ((actualNightPlayIn + 1) div 2) shuffledNightSlots;
                    nightByeSlots = drop ((actualNightPlayIn + 1) div 2) shuffledNightSlots;
                    result = placePlayIns 0 dayPlayInGroup dayPlayInSlots result 0;
                    result = placeByes 0 dayByeGroup dayByeSlots result 0;
                    result = placePlayIns halfSize nightPlayInGroup nightPlayInSlots result 0;
                    result = placeByes halfSize nightByeGroup nightByeSlots result 0;
                    result = fillNulls bracketSize result
                in \<lparr> placed = result,
                     participantCount = length participants,
                     bracketSize_out = bracketSize,
                     stats = \<lparr> st_dayPlayers = length dayPlayers,
                               st_nightPlayers = length nightPlayers,
                               st_playInMatches = playInMatchCount,
                               st_playInParticipants = Some playInParticipantCount,
                               st_byeToRound2 = Some byeToRound2Count,
                               st_dayPlayInMatches = Some (length dayPlayInSlots),
                               st_nightPlayInMatches = Some (length nightPlayInSlots),
                               st_fullBracket = False, st_randomPlacement = False,
                               st_byeCount = int bracketSize - int totalPlayers \<rparr> \<rparr>)"

subsection \<open>The entry point\<close>

text \<open>
  The source has no error classes: a failure is \<open>{ success: false, error: message }\<close>.
  The two messages of \<open>seedParticipants\<close> are the errors the specification calls
  \<open>EmptyInputError\<close> and \<open>InvalidSizeError\<close>.
\<close>

definition EmptyInputError :: string where
  "EmptyInputError = ''No participants to place''"

definition InvalidSizeError :: string where
  "InvalidSizeError = ''Invalid bracket size. Must be 8, 16, 32, 64, or 128''"

text \<open>
  \<open>Inl\<close> is the failure object with its message, \<open>Inr\<close> the success object (its
  \<open>seeded\<close> and \<open>placed\<close> keys hold the same array). The \<open>try\<close> block has nothing to
  catch here: no function of the model raises.
\<close>

definition seedParticipants :: "participant list \<Rightarrow> nat \<Rightarrow> rng \<Rightarrow> string + placement" where
  "seedParticipants participants bracketSize g =
     (if participants = [] then Inl EmptyInputError
      else if bracketSize = 0 \<or> bracketSize \<notin> set [8, 16, 32, 64, 128] then Inl InvalidSizeError
      else Inr (placeByAvailability participants bracketSize g))"

section \<open>Bracket builder (the pairing engine)\<close>

record match =
  matchNumber :: nat
  player1 :: "participant option"
  player2 :: "participant option"
  winner :: "participant option"

record round =
  roundNumber :: nat
  roundName :: string
  matches :: "match list"

text \<open>\<open>player || null\<close>: an object is truthy, \<open>null\<close> and \<open>undefined\<close> are not.\<close>

definition or_null :: "cell \<Rightarrow> participant option" where
  "or_null c = (case c of Cell p \<Rightarrow> Some p | _ \<Rightarrow> None)"

text \<open>The body of the loop of \<open>buildRound1\<close> for one \<open>i\<close>.\<close>

definition buildMatch :: "cell list \<Rightarrow> nat \<Rightarrow> match" where
  "buildMatch participants i =
     (let p1 = js_get participants (i * 2);
          p2 = js_get participants (i * 2 + 1)
      in \<lparr> matchNumber = i + 1,
           player1 = or_null p1,
           player2 = or_null p2,
           winner = (case (p1, p2) of
                       (Cell a, Cell b) \<Rightarrow>
                          if isBye b then Some a
                          else if isBye a then Some b
                          else None
                     | _ \<Rightarrow> None) \<rparr>)"

text \<open>
  \<open>matchCount = participants.length / 2\<close> is not rounded, so the loop \<open>i < matchCount\<close>
  runs for every \<open>i\<close> with \<open>2 * i < participants.length\<close>.
\<close>

definition buildRound1 :: "cell list \<Rightarrow> round" where
  "buildRound1 participants =
     \<lparr> roundNumber = 1,
       roundName = ''Round 1'',
       matches = map (buildMatch participants) [0..<(length participants + 1) div 2] \<rparr>"

text \<open>
  An entrant as \<open>handleGenerateBracket\<close> hands it to the engine: a name and an
  availability, no \<open>isBye\<close>, no seed yet.
\<close>

definition entrant :: "string \<Rightarrow> string option \<Rightarrow> participant" where
  "entrant n a = \<lparr> name = n, isBye = False, seed = None, availability = a,
                   singlesHandicap_p = None, doublesHandicap_p = None \<rparr>"


section \<open>Counting in a slot array\<close>

text \<open>A cell holds a real participant: a participant that is not a BYE.\<close>

definition isReal :: "cell \<Rightarrow> bool" where
  "isReal c = (case c of Cell p \<Rightarrow> \<not> isBye p | _ \<Rightarrow> False)"

text \<open>The real entries of a slot array: the participants in its cells that are not BYEs.\<close>

definition realEntries :: "cell list \<Rightarrow> participant list" where
  "realEntries slots =
     concat (map (\<lambda>c. case c of Cell p \<Rightarrow> (if isBye p then [] else [p]) | _ \<Rightarrow> []) slots)"

text \<open>
  The real entries as a multiset, their seeds put aside: a placed participant is a copy of
  an input participant with a new seed.
\<close>

definition entries :: "cell list \<Rightarrow> participant multiset" where
  "entries slots = mset (map (\<lambda>p. p\<lparr> seed := None \<rparr>) (realEntries slots))"

text \<open>The round-1 matches of a slot array that have a real participant on both sides.\<close>

definition realMatches :: "cell list \<Rightarrow> match list" where
  "realMatches slots =
     filter (\<lambda>m. case (player1 m, player2 m) of
                    (Some a, Some b) \<Rightarrow> \<not> isBye a \<and> \<not> isBye b
                  | _ \<Rightarrow> False)
            (matches (buildRound1 slots))"

text \<open>Entrants with the given names, all with the same availability.\<close>

definition entrants :: "string list \<Rightarrow> string option \<Rightarrow> participant list" where
  "entrants names a = map (\<lambda>n. entrant n a) names"

section \<open>Properties of the rounding\<close>

lemma exponent_unfold:
  "0 < q \<Longrightarrow> exponent q = (if q \<ge> 2 then exponent (q / 2) + 1
                 else if q < 1 then exponent (q * 2) - 1 else 0)"
  by (subst exponent.simps) simp

lemma exponent_bounds:
  "0 < q \<Longrightarrow> 2 powi exponent q \<le> q \<and> q < 2 powi (exponent q + 1)"
proof (induction q rule: exponent.induct)
  case (1 q)
  note pos = \<open>0 < q\<close>
  consider (big) "2 \<le> q" | (small) "q < 1" | (mid) "1 \<le> q" "q < 2" by linarith
  then show ?case
  proof cases
    case big
    then have e: "exponent q = exponent (q / 2) + 1"
      using pos by (subst exponent_unfold) simp_all
    have ih: "2 powi exponent (q / 2) \<le> q / 2 \<and> q / 2 < 2 powi (exponent (q / 2) + 1)"
      using "1.IH"(1) big pos by simp
    have s: "(2::rat) powi (k + 1) = 2 * 2 powi k" for k
      by (simp add: power_int_add)
    show ?thesis using ih unfolding e s by simp
  next
    case small
    then have e: "exponent q = exponent (q * 2) - 1"
      using pos by (subst exponent_unfold) simp_all
    have ih: "2 powi exponent (q * 2) \<le> q * 2 \<and> q * 2 < 2 powi (exponent (q * 2) + 1)"
      using "1.IH"(2) small pos by simp
    have s: "(2::rat) powi (k + 1) = 2 * 2 powi k" for k
      by (simp add: power_int_add)
    have t: "(2::rat) powi k = 2 * 2 powi (k - 1)" for k
      using s [of "k - 1"] by simp
    show ?thesis using ih unfolding e s by (simp add: t [of "exponent (q * 2)"])
  next
    case mid
    then have e: "exponent q = 0"
      using pos by (subst exponent_unfold) simp_all
    show ?thesis using mid by (simp add: e)
  qed
qed

lemma exponent_eqI:
  assumes "0 < q" "2 powi e \<le> q" "q < 2 powi (e + 1)"
  shows "exponent q = e"
proof (rule ccontr)
  assume ne: "exponent q \<noteq> e"
  have b: "2 powi exponent q \<le> q" "q < 2 powi (exponent q + 1)"
    using exponent_bounds [OF assms(1)] by simp_all
  show False
  proof (cases "exponent q < e")
    case True
    then have "(2::rat) powi (exponent q + 1) \<le> 2 powi e"
      by (intro power_int_increasing) simp_all
    then show False using b(2) assms(2) by linarith
  next
    case False
    then have "(2::rat) powi (e + 1) \<le> 2 powi exponent q"
      using ne by (intro power_int_increasing) simp_all
    then show False using b(1) assms(3) by linarith
  qed
qed

lemma round_even_of_int: "round_even (of_int n) = n"
  by (simp add: round_even_def)

lemma round_even_minus: "round_even (- x) = - round_even x"
proof (cases "x \<in> \<int>")
  case True
  then obtain n where "x = of_int n" by (auto elim: Ints_cases)
  then have "round_even x = n" "round_even (- x) = - n"
    using round_even_of_int [of n] round_even_of_int [of "- n"] by simp_all
  then show ?thesis by simp
next
  case False
  then have ne: "x \<noteq> of_int \<lfloor>x\<rfloor>"
    by (metis Ints_of_int)
  then have f: "\<lfloor>- x\<rfloor> = - \<lfloor>x\<rfloor> - 1"
    by (simp add: floor_minus ceiling_altdef)
  define r where "r = x - of_int \<lfloor>x\<rfloor>"
  have r': "- x - of_int (- \<lfloor>x\<rfloor> - 1) = 1 - r" by (simp add: r_def)
  have ev: "even (- \<lfloor>x\<rfloor> - 1) \<longleftrightarrow> odd \<lfloor>x\<rfloor>" by simp
  show ?thesis
    unfolding round_even_def Let_def f r' ev r_def [symmetric]
    by (auto simp: field_simps)
qed

lemma round_even_le: "x \<le> of_int N \<Longrightarrow> round_even x \<le> N"
proof -
  assume a: "x \<le> of_int N"
  show ?thesis
  proof (cases "x = of_int N")
    case True
    then show ?thesis by (simp add: round_even_of_int)
  next
    case False
    then have "x < of_int N" using a by simp
    then have "\<lfloor>x\<rfloor> < N" by (simp add: floor_less_iff)
    then show ?thesis by (simp add: round_even_def Let_def)
  qed
qed

lemma round_even_nonneg: "0 \<le> x \<Longrightarrow> 0 \<le> round_even x"
  by (simp add: round_even_def Let_def)

lemma ulp_pos: "0 < ulp q"
  by (simp add: ulp_def)

lemma ulp_minus: "ulp (- q) = ulp q"
  by (simp add: ulp_def)

lemma ulp_eq:
  assumes "0 < \<bar>q\<bar>" "2 powi e \<le> \<bar>q\<bar>" "\<bar>q\<bar> < 2 powi (e + 1)" "- 1022 \<le> e"
  shows "ulp q = 2 powi (e - 52)"
  using exponent_eqI [OF assms(1-3)] assms(4) by (simp add: ulp_def)

lemma nearest_minus: "nearest (- q) = - nearest q"
  by (simp add: nearest_def ulp_minus round_even_minus)

lemma nearest_0: "nearest 0 = 0"
  by (simp add: nearest_def round_even_def)

lemma nearest_nonneg: "0 \<le> q \<Longrightarrow> 0 \<le> nearest q"
  using ulp_pos [of q] by (simp add: nearest_def round_even_nonneg)

lemma nearest_abs: "nearest \<bar>q\<bar> = \<bar>nearest q\<bar>"
proof (cases "0 \<le> q")
  case True
  then show ?thesis using nearest_nonneg [of q] by simp
next
  case False
  then have "0 \<le> nearest (- q)" by (intro nearest_nonneg) simp
  then show ?thesis using False by (simp add: nearest_minus)
qed

lemma nearest_bound:
  assumes "0 < q" "2 powi e \<le> q" "q < 2 powi (e + 1)" "- 1022 \<le> e"
  shows "nearest q \<le> 2 powi (e + 1)"
proof -
  have u: "ulp q = 2 powi (e - 52)"
    using ulp_eq [of q e] assms by simp
  have "q / 2 powi (e - 52) \<le> 2 powi (e + 1) / 2 powi (e - 52)"
    using assms(3) by (simp add: divide_right_mono)
  also have "\<dots> = 2 powi 53"
    by (simp add: power_int_diff [symmetric] del: power_int_numeral)
  finally have "q / 2 powi (e - 52) \<le> of_int (2 ^ 53)"
    by simp
  then have "round_even (q / 2 powi (e - 52)) \<le> 2 ^ 53"
    by (rule round_even_le)
  then have "(of_int (round_even (q / 2 powi (e - 52))) :: rat) \<le> of_int (2 ^ 53)"
    by (simp only: of_int_le_iff)
  then have "of_int (round_even (q / 2 powi (e - 52))) * 2 powi (e - 52)
               \<le> (2 powi 53 :: rat) * 2 powi (e - 52)"
    by (simp add: mult_right_mono)
  also have "\<dots> = 2 powi (e + 1)"
    by (simp add: power_int_add [symmetric] add.commute del: power_int_numeral)
  finally show ?thesis by (simp add: nearest_def u)
qed

lemma threshold_minus:
  "0 < T \<Longrightarrow>
   (if - r \<ge> T then PosInf else if - r \<le> - T then NegInf else Fin (- r)) =
   js_neg (if r \<ge> T then PosInf else if r \<le> - T then NegInf else Fin (r::rat))"
  by auto

lemma threshold_abs:
  "0 < T \<Longrightarrow>
   js_abs (if r \<ge> T then PosInf else if r \<le> - T then NegInf else Fin (r::rat)) =
   (if \<bar>r\<bar> \<ge> T then PosInf else if \<bar>r\<bar> \<le> - T then NegInf else Fin \<bar>r\<bar>)"
  by auto

lemma round64_0: "round64 0 = Fin 0"
  by (simp add: round64_def nearest_0)

text \<open>Rounding is symmetric: it commutes with the sign and with the absolute value.\<close>

lemma round64_minus: "round64 (- q) = js_neg (round64 q)"
  unfolding round64_def Let_def nearest_minus
  by (rule threshold_minus) (rule zero_less_power, simp)

lemma js_abs_round64: "js_abs (round64 q) = round64 \<bar>q\<bar>"
  unfolding round64_def Let_def nearest_abs
  by (rule threshold_abs) (rule zero_less_power, simp)

text \<open>
  The rounded value of a number of known exponent, within the range of the normal
  numbers: the quotient by the spacing, rounded to an integer, times the spacing.
\<close>

lemma round64_eval_pos:
  assumes "0 < q" "2 powi e \<le> q" "q < 2 powi (e + 1)" "- 1022 \<le> e" "e < 1023"
  shows "round64 q = Fin (of_int (round_even (q / 2 powi (e - 52))) * 2 powi (e - 52))"
proof -
  have u: "ulp q = 2 powi (e - 52)"
    using ulp_eq [of q e] assms by simp
  have "nearest q \<le> 2 powi (e + 1)"
    using nearest_bound [OF assms(1-4)] .
  also have "\<dots> \<le> 2 powi 1023"
    using assms(5) by (intro power_int_increasing) simp_all
  also have "\<dots> < (2::rat) ^ 1024"
    by (simp only: power_int_numeral) (rule power_strict_increasing, simp_all)
  finally have lt: "nearest q < 2 ^ 1024" .
  have "0 \<le> nearest q" using assms(1) by (simp add: nearest_nonneg)
  then have "\<not> nearest q \<le> - (2 ^ 1024)"
    using zero_less_power [of "2::rat" 1024] by linarith
  then show ?thesis
    using lt by (simp add: round64_def Let_def nearest_def u del: power_int_numeral)
qed

lemma round64_eval:
  assumes "q \<noteq> 0" "2 powi e \<le> \<bar>q\<bar>" "\<bar>q\<bar> < 2 powi (e + 1)" "- 1022 \<le> e" "e < 1023"
  shows "round64 q = Fin (of_int (round_even (q / 2 powi (e - 52))) * 2 powi (e - 52))"
proof (cases "0 < q")
  case True
  then show ?thesis using round64_eval_pos [of q e] assms by simp
next
  case False
  then have n: "0 < - q" "\<bar>q\<bar> = - q" using assms(1) by simp_all
  have "round64 (- q) = Fin (of_int (round_even (- q / 2 powi (e - 52))) * 2 powi (e - 52))"
    using round64_eval_pos [of "- q" e] assms n by simp
  then have "js_neg (round64 q) = Fin (- (of_int (round_even (q / 2 powi (e - 52))) * 2 powi (e - 52)))"
    by (simp add: round64_minus round_even_minus del: power_int_numeral)
  then show ?thesis
    by (cases "round64 q") simp_all
qed

lemma round64_exponent:
  assumes "q \<noteq> 0" "- 1022 \<le> exponent \<bar>q\<bar>" "exponent \<bar>q\<bar> < 1023"
  shows "round64 q = Fin (of_int (round_even (q / 2 powi (exponent \<bar>q\<bar> - 52)))
                           * 2 powi (exponent \<bar>q\<bar> - 52))"
  using assms exponent_bounds [of "\<bar>q\<bar>"] by (intro round64_eval) simp_all

lemma floor_numeral_quotient:
  "\<lfloor>numeral a / numeral b :: rat\<rfloor> = numeral a div numeral b"
  by (metis floor_divide_of_int_eq of_int_numeral)

text \<open>The facts that evaluate \<open>round64\<close> at a numeral.\<close>

lemmas double_eval =
  round64_exponent exponent_unfold round_even_def Let_def floor_numeral_quotient

text \<open>An integer below \<open>2^53\<close> in absolute value is a binary64 number.\<close>

lemma round64_of_int:
  assumes "\<bar>n\<bar> < 2 ^ 53"
  shows "round64 (of_int n) = Fin (of_int n)"
proof (cases "n = 0")
  case True
  then show ?thesis by (simp add: round64_0)
next
  case False
  define q :: rat where "q = \<bar>of_int n\<bar>"
  have q1: "1 \<le> q" using False by (simp add: q_def)
  have q2: "q < 2 ^ 53"
  proof -
    have "(of_int \<bar>n\<bar> :: rat) < of_int (2 ^ 53)" using assms by (simp only: of_int_less_iff)
    then show ?thesis by (simp add: q_def)
  qed
  define e where "e = exponent q"
  have b: "2 powi e \<le> q" "q < 2 powi (e + 1)"
    using exponent_bounds [of q] q1 by (simp_all add: e_def)
  have e0: "0 \<le> e"
  proof (rule ccontr)
    assume "\<not> 0 \<le> e"
    then have "(2::rat) powi (e + 1) \<le> 2 powi 0"
      by (intro power_int_increasing) simp_all
    then show False using b(2) q1 by simp
  qed
  have e52: "e \<le> 52"
  proof (rule ccontr)
    assume "\<not> e \<le> 52"
    then have "(2::rat) powi 53 \<le> 2 powi e"
      by (intro power_int_increasing) simp_all
    then show False using b(1) q2 by simp
  qed
  define k where "k = nat (52 - e)"
  have ek: "e - 52 = - int k" using e52 by (simp add: k_def)
  have pw: "(2::rat) powi (e - 52) = 1 / 2 ^ k"
    unfolding ek by (simp add: power_int_minus_divide)
  have ne: "(of_int n :: rat) \<noteq> 0" using False by simp
  have "round64 (of_int n) =
          Fin (of_int (round_even (of_int n / 2 powi (e - 52))) * 2 powi (e - 52))"
    using b e0 e52 by (intro round64_eval ne) (simp_all add: q_def)
  also have "of_int n / (2::rat) powi (e - 52) = of_int (n * 2 ^ k)"
    by (simp add: pw)
  also have "round_even (of_int (n * 2 ^ k)) = n * 2 ^ k"
    by (rule round_even_of_int)
  also have "(of_int (n * 2 ^ k) :: rat) * 2 powi (e - 52) = of_int n"
    by (simp add: pw)
  finally show ?thesis .
qed

lemma js_min_Fin: "js_min (Fin x) (Fin y) = Fin (min x y)"
  by (auto simp: js_min_def)

lemma js_sub_Fin: "js_sub (Fin x) (Fin y) = round64 (x - y)"
  by (simp add: js_sub_def)

section \<open>Properties of the team handicap\<close>

lemma table_map_of:
  "map_of ADJUSTMENT_TABLE k = map_option round64 (map_of ADJUSTMENT_TABLE_literals k)"
  by (simp add: ADJUSTMENT_TABLE_def map_of_map)

lemma table_keys: "map fst ADJUSTMENT_TABLE_literals = [1..60]"
  by code_simp

lemma table_defined:
  assumes "1 \<le> k" "k \<le> 60"
  shows "\<exists>v. map_of ADJUSTMENT_TABLE k = Some v"
proof -
  have "k \<in> set (map fst ADJUSTMENT_TABLE_literals)"
    using assms by (simp add: table_keys)
  then have "map_of ADJUSTMENT_TABLE_literals k \<noteq> None"
    by (simp add: map_of_eq_None_iff)
  then show ?thesis by (auto simp: table_map_of)
qed


lemma table_lookup_int: "table_lookup (Fin (of_int k)) = map_of ADJUSTMENT_TABLE k"
  by (simp add: table_lookup_def)


lemma adjustment_int:
  assumes "1 \<le> k" "k \<le> 59"
  shows "map_of ADJUSTMENT_TABLE k = Some (getAdjustmentFactor (Fin (of_int k)))"
proof -
  obtain v where v: "map_of ADJUSTMENT_TABLE k = Some v"
    using table_defined [of k] assms by auto
  have "(of_int k :: rat) \<noteq> 0" "(of_int k :: rat) < 60"
    using assms by auto
  then show ?thesis
    by (simp add: getAdjustmentFactor_def strict_eq_def js_ge_def table_lookup_int v)
qed




lemma effective_doubles: "getPlayerEffectiveHandicap (doubles_player h) = Some h"
  by (simp add: getPlayerEffectiveHandicap_def doubles_player_def nullish_def)

lemma calculate_success:
  assumes "getPlayerEffectiveHandicap a = Some ea" "getPlayerEffectiveHandicap b = Some eb"
  shows "calculateTeamHandicap a b =
           Inr \<lparr> teamHandicap = js_add (js_min ea eb) (getAdjustmentFactor (js_abs (js_sub ea eb))),
                 playerAHandicap = ea, playerBHandicap = eb,
                 difference = js_abs (js_sub ea eb),
                 adjustment = getAdjustmentFactor (js_abs (js_sub ea eb)),
                 betterHandicap = js_min ea eb \<rparr>"
  using assms by (simp add: calculateTeamHandicap_def Let_def)


lemma difference_of_ints:
  assumes "\<bar>i\<bar> < 2 ^ 52" "\<bar>j\<bar> < 2 ^ 52"
  shows "js_abs (js_sub (Fin (of_int i)) (Fin (of_int j))) = Fin (of_int \<bar>i - j\<bar>)"
proof -
  have "\<bar>i - j\<bar> < 2 ^ 53" using assms by simp
  then have "round64 (of_int \<bar>i - j\<bar>) = Fin (of_int \<bar>i - j\<bar>)"
    using round64_of_int [of "\<bar>i - j\<bar>"] by simp
  moreover have "js_abs (js_sub (Fin (of_int i)) (Fin (of_int j))) = round64 \<bar>of_int i - of_int j\<bar>"
    by (simp only: js_sub_Fin js_abs_round64)
  ultimately show ?thesis by simp
qed

lemma double_3_8: "round64 3.8 = Fin (4278419646001971 / 1125899906842624)"
  by (simp add: double_eval)

lemma double_35_8: "round64 35.8 = Fin (2519201041560371 / 70368744177664)"
  by (simp add: double_eval)

lemma sum_32_3_8: "js_add (Fin 32) (round64 3.8) = round64 35.8"
  unfolding double_3_8 double_35_8 by (simp add: double_eval)

lemma table_13: "map_of ADJUSTMENT_TABLE 13 = Some (round64 3.8)"
  by (simp add: table_map_of ADJUSTMENT_TABLE_literals_def)

lemma adjustment_13: "getAdjustmentFactor (Fin 13) = round64 3.8"
  using adjustment_int [of 13] table_13 by simp

lemma irtpa_example:
  "calculateTeamHandicap (doubles_player (Fin 32)) (doubles_player (Fin 45)) =
     Inr \<lparr> teamHandicap = round64 35.8, playerAHandicap = Fin 32, playerBHandicap = Fin 45,
           difference = Fin 13, adjustment = round64 3.8, betterHandicap = Fin 32 \<rparr>"
proof -
  have d: "js_abs (js_sub (Fin 32) (Fin 45)) = Fin 13"
    using difference_of_ints [of 32 45] by simp
  have m: "min (32::rat) 45 = 32" by simp
  show ?thesis
    unfolding calculate_success [OF effective_doubles effective_doubles] d adjustment_13
      js_min_Fin m sum_32_3_8
    by (rule refl)
qed

lemma validateAlgorithm_holds: "validateAlgorithm"
  unfolding validateAlgorithm_def irtpa_example double_3_8 double_35_8
  by (simp add: strict_eq_def)







lemma double_40_1: "round64 40.1 = Fin (5643573283048653 / 140737488355328)"
  by (simp add: double_eval)

lemma double_10_1: "round64 10.1 = Fin (5685794529555251 / 562949953421312)"
  by (simp add: double_eval)

lemma double_7_2: "round64 7.2 = Fin (8106479329266893 / 1125899906842624)"
  by (simp add: double_eval)

lemma table_30: "map_of ADJUSTMENT_TABLE 30 = Some (round64 7.2)"
  by (simp add: table_map_of ADJUSTMENT_TABLE_literals_def)

lemma adjustment_30: "getAdjustmentFactor (Fin 30) = round64 7.2"
  using adjustment_int [of 30] table_30 by simp

lemma difference_40_1_10_1:
  "js_abs (js_sub (Fin (5643573283048653 / 140737488355328)) (Fin (5685794529555251 / 562949953421312)))
     = Fin 30"
  unfolding js_sub_Fin js_abs_round64 by (simp add: double_eval)

text \<open>
  Claim C8 as stated fails: the difference and the sum are rounded. For the handicaps
  40.1 and 10.1 (the binary64 numbers that these literals denote) the difference
  is computed as 30, which the exact difference is not, and with the adjustment 7.2 of
  the table the team handicap is not the exact sum of the better handicap and the
  adjustment.
\<close>

theorem team_handicap_is_rounded:
  "(case (round64 40.1, round64 10.1) of
      (Fin x, Fin y) \<Rightarrow>
        (case calculateTeamHandicap (doubles_player (Fin x)) (doubles_player (Fin y)) of
           Inr r \<Rightarrow> difference r = Fin 30 \<and> difference r \<noteq> Fin \<bar>x - y\<bar>
                    \<and> adjustment r = round64 7.2
                    \<and> (case adjustment r of
                          Fin v \<Rightarrow> teamHandicap r \<noteq> Fin (min x y + v)
                        | _ \<Rightarrow> False)
         | Inl f \<Rightarrow> False)
    | _ \<Rightarrow> False)"
  unfolding double_40_1 double_10_1
  apply (simp only: prod.case number.case)
  unfolding calculate_success [OF effective_doubles effective_doubles] difference_40_1_10_1
    adjustment_30 double_7_2 js_min_Fin
  apply (simp only: sum.case team_result.select_convs number.case)
  apply (simp add: double_eval)
  done




lemma double_52_2: "round64 52.2 = Fin (3673248446074061 / 70368744177664)"
  by (simp add: double_eval)

lemma double_20_2: "round64 20.2 = Fin (5685794529555251 / 281474976710656)"
  by (simp add: double_eval)

lemma double_7_6: "round64 7.6 = Fin (4278419646001971 / 562949953421312)"
  by (simp add: double_eval)

lemma table_32: "map_of ADJUSTMENT_TABLE 32 = Some (round64 7.6)"
  by (simp add: table_map_of ADJUSTMENT_TABLE_literals_def)

lemma adjustment_32: "getAdjustmentFactor (Fin 32) = round64 7.6"
  using adjustment_int [of 32] table_32 by simp

lemma difference_52_2_20_2:
  "js_abs (js_sub (Fin (3673248446074061 / 70368744177664)) (Fin (5685794529555251 / 281474976710656)))
     = Fin 32"
  unfolding js_sub_Fin js_abs_round64 by (simp add: double_eval)

lemma exact_52_2_20_2:
  "\<bar>3673248446074061 / 70368744177664 - 5685794529555251 / 281474976710656 :: rat\<bar> \<notin> \<int>"
  by (simp add: of_int_floor_cancel [symmetric] floor_numeral_quotient)

text \<open>
  Claim C10 as stated fails. The handicaps 52.2 and 20.2 (the binary64 numbers that
  these literals denote) differ by an amount below 60 that is not an integer, but the
  subtraction rounds it to 32: the adjustment is 7.6, the table value, and not 12.0.
\<close>

theorem exact_difference_not_integer:
  "(case (round64 52.2, round64 20.2) of
      (Fin x, Fin y) \<Rightarrow>
        0 < \<bar>x - y\<bar> \<and> \<bar>x - y\<bar> < 60 \<and> \<bar>x - y\<bar> \<notin> \<int>
        \<and> (case calculateTeamHandicap (doubles_player (Fin x)) (doubles_player (Fin y)) of
             Inr r \<Rightarrow> difference r = Fin 32 \<and> adjustment r = round64 7.6
                      \<and> adjustment r \<noteq> Fin 12.0
           | Inl f \<Rightarrow> False)
    | _ \<Rightarrow> False)"
  unfolding double_52_2 double_20_2
  apply (simp only: prod.case number.case)
  unfolding calculate_success [OF effective_doubles effective_doubles] difference_52_2_20_2
    adjustment_32 double_7_6
  apply (simp only: sum.case team_result.select_convs)
  apply (intro conjI)
       apply simp
      apply simp
     apply (rule exact_52_2_20_2)
    apply (rule refl)
   apply (rule refl)
  apply simp
  done

section \<open>Properties of the class rounding\<close>

text \<open>\<open>includes\<close> is the contiguous-sublist relation of the library.\<close>

lemma startsWith_prefix: "startsWith s t = prefix t s"
  by (induction s t rule: startsWith.induct) auto

lemma includes_str_sublist: "includes_str s t = sublist t s"
proof (induction s)
  case Nil
  then show ?case by auto
next
  case (Cons c cs)
  then show ?case
    by (simp add: startsWith_prefix sublist_Cons_right)
qed

lemma sublist_longer_key:
  assumes "sublist (k @ rest) s"
  shows "sublist k s"
proof -
  obtain ps ss where "s = ps @ (k @ rest) @ ss"
    using assms by (auto simp: sublist_def)
  then have "s = ps @ k @ (rest @ ss)" by simp
  then show ?thesis unfolding sublist_def by blast
qed

lemma class_keys:
  "sublist ''4th class'' s \<Longrightarrow> sublist ''4th'' s"
  "sublist ''3rd class'' s \<Longrightarrow> sublist ''3rd'' s"
  "sublist ''2nd class'' s \<Longrightarrow> sublist ''2nd'' s"
  "sublist ''1st class'' s \<Longrightarrow> sublist ''1st'' s"
  using sublist_longer_key [of "''4th''" "'' class''" s]
    sublist_longer_key [of "''3rd''" "'' class''" s]
    sublist_longer_key [of "''2nd''" "'' class''" s]
    sublist_longer_key [of "''1st''" "'' class''" s]
  by simp_all

lemma find_bounds_classes:
  "find_bounds s CLASS_BOUNDS =
     (if sublist ''4th'' s then Some \<lparr> min_val = Some 40, max_val = Some 49 \<rparr>
      else if sublist ''3rd'' s then Some \<lparr> min_val = Some 30, max_val = Some 39 \<rparr>
      else if sublist ''2nd'' s then Some \<lparr> min_val = Some 20, max_val = Some 29 \<rparr>
      else if sublist ''1st'' s then Some \<lparr> min_val = None, max_val = Some 19 \<rparr>
      else None)"
  using class_keys [of s]
  by (simp add: CLASS_BOUNDS_def includes_str_sublist)

lemma bounds_of_event:
  "getEventClassBounds e =
     (if e = [] \<or> sublist ''club'' (toLowerCase e) \<or> sublist ''championship'' (toLowerCase e)
         \<or> sublist ''champ'' (toLowerCase e) then None
      else if sublist ''4th'' (toLowerCase e) then Some \<lparr> min_val = Some 40, max_val = Some 49 \<rparr>
      else if sublist ''3rd'' (toLowerCase e) then Some \<lparr> min_val = Some 30, max_val = Some 39 \<rparr>
      else if sublist ''2nd'' (toLowerCase e) then Some \<lparr> min_val = Some 20, max_val = Some 29 \<rparr>
      else if sublist ''1st'' (toLowerCase e) then Some \<lparr> min_val = None, max_val = Some 19 \<rparr>
      else None)"
  unfolding getEventClassBounds_def Let_def find_bounds_classes
  by (simp add: includes_str_sublist)

text \<open>\<open>toLowerCase\<close> replaces each capital letter by its small letter.\<close>

lemma lower_capital:
  "\<forall>c\<in>set ''ABCDEFGHIJKLMNOPQRSTUVWXYZ''.
     toLowerCase_char c =
       (case map_of (zip ''ABCDEFGHIJKLMNOPQRSTUVWXYZ'' ''abcdefghijklmnopqrstuvwxyz'') c of
          Some l \<Rightarrow> l | None \<Rightarrow> c)"
  by code_simp

lemma capital_codes:
  "\<forall>n\<in>set [65..<91]. char_of (n::nat) \<in> set ''ABCDEFGHIJKLMNOPQRSTUVWXYZ''"
  by code_simp

lemma lower_char:
  "toLowerCase_char c =
     (case map_of (zip ''ABCDEFGHIJKLMNOPQRSTUVWXYZ'' ''abcdefghijklmnopqrstuvwxyz'') c of
        Some l \<Rightarrow> l | None \<Rightarrow> c)"
proof (cases "c \<in> set ''ABCDEFGHIJKLMNOPQRSTUVWXYZ''")
  case True
  then show ?thesis using lower_capital by blast
next
  case False
  have len: "length ''ABCDEFGHIJKLMNOPQRSTUVWXYZ'' = length ''abcdefghijklmnopqrstuvwxyz''"
    by simp
  have none: "map_of (zip ''ABCDEFGHIJKLMNOPQRSTUVWXYZ'' ''abcdefghijklmnopqrstuvwxyz'') c = None"
    using False by (simp only: map_of_zip_is_None [OF len] not_False_eq_True)
  have "\<not> (65 \<le> (of_char c :: nat) \<and> (of_char c :: nat) \<le> 90)"
  proof
    assume "65 \<le> (of_char c :: nat) \<and> (of_char c :: nat) \<le> 90"
    then have "65 \<le> (of_char c :: nat) \<and> (of_char c :: nat) < 91" by linarith
    then have "(of_char c :: nat) \<in> set [65..<91]"
      by (simp only: set_upt atLeastLessThan_iff)
    then have "char_of (of_char c :: nat) \<in> set ''ABCDEFGHIJKLMNOPQRSTUVWXYZ''"
      using capital_codes by blast
    then show False using False by (simp only: char_of_char)
  qed
  then have "toLowerCase_char c = c"
    unfolding toLowerCase_char_def Let_def by (rule if_not_P)
  then show ?thesis by (simp only: none option.case)
qed

lemma lower_string:
  "toLowerCase e =
     map (\<lambda>c. case map_of (zip ''ABCDEFGHIJKLMNOPQRSTUVWXYZ'' ''abcdefghijklmnopqrstuvwxyz'') c of
                 Some l \<Rightarrow> l | None \<Rightarrow> c) e"
  unfolding toLowerCase_def by (rule map_cong [OF refl]) (rule lower_char)

lemma find_bounds_key:
  "find_bounds n T = Some b \<Longrightarrow> \<exists>key. (key, Some b) \<in> set T \<and> includes_str n key"
  by (induction T) (auto split: if_splits)

lemma class_bounds_values:
  assumes "(key, Some b) \<in> set CLASS_BOUNDS"
  shows "\<exists>hi. max_val b = Some hi \<and> 19 \<le> hi \<and> (\<forall>lo. min_val b = Some lo \<longrightarrow> lo \<le> hi)"
proof -
  have "Some b \<in> snd ` set CLASS_BOUNDS"
    using assms by force
  then have "b \<in> {\<lparr> min_val = Some 40, max_val = Some 49 \<rparr>, \<lparr> min_val = Some 30, max_val = Some 39 \<rparr>,
                  \<lparr> min_val = Some 20, max_val = Some 29 \<rparr>, \<lparr> min_val = None, max_val = Some 19 \<rparr>}"
    by (simp add: CLASS_BOUNDS_def)
  then show ?thesis by auto
qed

lemma round_low: "h < 0 \<or> h \<le> 19 \<Longrightarrow> roundHandicapForClass h bo = h"
  by (auto simp: roundHandicapForClass_def split: option.splits)

lemma round_cap:
  assumes "19 < h" "max_val b = Some hi" "hi < h" "\<forall>lo. min_val b = Some lo \<longrightarrow> lo \<le> hi"
  shows "roundHandicapForClass h (Some b) = hi"
  using assms by (auto simp: roundHandicapForClass_def Let_def split: option.splits)

lemma round_raise:
  assumes "19 < h" "min_val b = Some lo" "h < lo" "\<forall>hi. max_val b = Some hi \<longrightarrow> lo \<le> hi"
  shows "roundHandicapForClass h (Some b) = lo"
  using assms by (auto simp: roundHandicapForClass_def Let_def split: option.splits)

lemma round_inside:
  assumes "\<forall>hi. max_val b = Some hi \<longrightarrow> h \<le> hi" "\<forall>lo. min_val b = Some lo \<longrightarrow> lo \<le> h"
  shows "roundHandicapForClass h (Some b) = h"
  using assms by (auto simp: roundHandicapForClass_def Let_def split: option.splits)

lemma round_examples:
  "roundForEvent 45 ''3rd Class'' = 39" "roundForEvent 15 ''3rd Class'' = 15"
  "roundForEvent 10 ''Club Championship'' = 10"
  "roundForEvent 55 ''4th Class'' = 49" "roundForEvent 45 ''Club 3rd Class'' = 45"
  "roundForEvent 45 ''Men's 3RD CLASS Singles'' = 39" "roundForEvent 25 ''1st class'' = 19"
  by code_simp+

text \<open>
  Claim C9. A handicap below 0 or at most 19 is returned as it is, whatever the bounds.
  Above 19, without bounds for the event it is returned as it is; with bounds it is capped
  at the maximum, raised to the minimum, and unchanged in between. The bounds are found
  by substring match on the event name in small letters: none for an empty name and for a
  name that contains \<open>club\<close>, \<open>championship\<close> or \<open>champ\<close>; otherwise those of the first of
  \<open>4th\<close> (40 to 49), \<open>3rd\<close> (30 to 39), \<open>2nd\<close> (20 to 29) and \<open>1st\<close> (up to 19) that the name
  contains, and none if it contains none of them. \<open>round(45, "3rd Class") = 39\<close>,
  \<open>round(15, "3rd Class") = 15\<close>, \<open>round(10, "Club Championship") = 10\<close>.
\<close>

theorem class_rounder:
  "(h < 0 \<or> h \<le> 19 \<longrightarrow> roundHandicapForClass h bo = h \<and> roundForEvent h e = h)
   \<and> (getEventClassBounds e = None \<longrightarrow> roundForEvent h e = h)
   \<and> (\<forall>b. 19 < h \<and> getEventClassBounds e = Some b \<longrightarrow>
         (\<exists>key. (key, Some b) \<in> set CLASS_BOUNDS \<and> includes_str (toLowerCase e) key)
         \<and> (\<forall>hi. max_val b = Some hi \<and> hi < h \<longrightarrow> roundForEvent h e = hi)
         \<and> (\<forall>lo. min_val b = Some lo \<and> h < lo \<longrightarrow> roundForEvent h e = lo)
         \<and> ((\<forall>hi. max_val b = Some hi \<longrightarrow> h \<le> hi) \<and> (\<forall>lo. min_val b = Some lo \<longrightarrow> lo \<le> h)
              \<longrightarrow> roundForEvent h e = h))
   \<and> getEventClassBounds e =
       (if e = [] \<or> sublist ''club'' (toLowerCase e) \<or> sublist ''championship'' (toLowerCase e)
           \<or> sublist ''champ'' (toLowerCase e) then None
        else if sublist ''4th'' (toLowerCase e) then Some \<lparr> min_val = Some 40, max_val = Some 49 \<rparr>
        else if sublist ''3rd'' (toLowerCase e) then Some \<lparr> min_val = Some 30, max_val = Some 39 \<rparr>
        else if sublist ''2nd'' (toLowerCase e) then Some \<lparr> min_val = Some 20, max_val = Some 29 \<rparr>
        else if sublist ''1st'' (toLowerCase e) then Some \<lparr> min_val = None, max_val = Some 19 \<rparr>
        else None)
   \<and> toLowerCase e =
       map (\<lambda>c. case map_of (zip ''ABCDEFGHIJKLMNOPQRSTUVWXYZ'' ''abcdefghijklmnopqrstuvwxyz'') c of
                   Some l \<Rightarrow> l | None \<Rightarrow> c) e
   \<and> roundForEvent 45 ''3rd Class'' = 39
   \<and> roundForEvent 15 ''3rd Class'' = 15
   \<and> roundForEvent 10 ''Club Championship'' = 10
   \<and> roundForEvent 55 ''4th Class'' = 49
   \<and> roundForEvent 45 ''Club 3rd Class'' = 45
   \<and> roundForEvent 45 ''Men's 3RD CLASS Singles'' = 39
   \<and> roundForEvent 25 ''1st class'' = 19"
proof -
  have low: "h < 0 \<or> h \<le> 19 \<longrightarrow> roundHandicapForClass h bo = h \<and> roundForEvent h e = h"
    by (simp add: roundForEvent_def round_low)
  have nob: "getEventClassBounds e = None \<longrightarrow> roundForEvent h e = h"
    by (simp add: roundForEvent_def roundHandicapForClass_def)
  have cl: "\<forall>b. 19 < h \<and> getEventClassBounds e = Some b \<longrightarrow>
         (\<exists>key. (key, Some b) \<in> set CLASS_BOUNDS \<and> includes_str (toLowerCase e) key)
         \<and> (\<forall>hi. max_val b = Some hi \<and> hi < h \<longrightarrow> roundForEvent h e = hi)
         \<and> (\<forall>lo. min_val b = Some lo \<and> h < lo \<longrightarrow> roundForEvent h e = lo)
         \<and> ((\<forall>hi. max_val b = Some hi \<longrightarrow> h \<le> hi) \<and> (\<forall>lo. min_val b = Some lo \<longrightarrow> lo \<le> h)
              \<longrightarrow> roundForEvent h e = h)"
  proof (intro allI impI)
    fix b assume a: "19 < h \<and> getEventClassBounds e = Some b"
    then have fb: "find_bounds (toLowerCase e) CLASS_BOUNDS = Some b"
      by (simp add: getEventClassBounds_def Let_def split: if_splits)
    then obtain key where key: "(key, Some b) \<in> set CLASS_BOUNDS" "includes_str (toLowerCase e) key"
      using find_bounds_key by blast
    obtain hi0 where hi0: "max_val b = Some hi0" "\<forall>lo. min_val b = Some lo \<longrightarrow> lo \<le> hi0"
      using class_bounds_values [OF key(1)] by blast
    have r: "roundForEvent h e = roundHandicapForClass h (Some b)"
      using a by (simp add: roundForEvent_def)
    have 1: "\<forall>hi. max_val b = Some hi \<and> hi < h \<longrightarrow> roundForEvent h e = hi"
      using a hi0 r round_cap [of h b] by auto
    have 2: "\<forall>lo. min_val b = Some lo \<and> h < lo \<longrightarrow> roundForEvent h e = lo"
      using a hi0 r round_raise [of h b] by auto
    have 3: "(\<forall>hi. max_val b = Some hi \<longrightarrow> h \<le> hi) \<and> (\<forall>lo. min_val b = Some lo \<longrightarrow> lo \<le> h)
              \<longrightarrow> roundForEvent h e = h"
      using r round_inside [of b h] by auto
    show "(\<exists>key. (key, Some b) \<in> set CLASS_BOUNDS \<and> includes_str (toLowerCase e) key)
         \<and> (\<forall>hi. max_val b = Some hi \<and> hi < h \<longrightarrow> roundForEvent h e = hi)
         \<and> (\<forall>lo. min_val b = Some lo \<and> h < lo \<longrightarrow> roundForEvent h e = lo)
         \<and> ((\<forall>hi. max_val b = Some hi \<longrightarrow> h \<le> hi) \<and> (\<forall>lo. min_val b = Some lo \<longrightarrow> lo \<le> h)
              \<longrightarrow> roundForEvent h e = h)"
      using key 1 2 3 by blast
  qed
  show ?thesis
    apply (intro conjI)
               apply (rule low)
              apply (rule nob)
             apply (rule cl)
            apply (rule bounds_of_event)
           apply (rule lower_string)
          apply (rule round_examples)+
    done
qed

text \<open>
  The theorem at 45 (capped to 39), 25 (raised to 30) and 35 (unchanged) in the third
  class, at 15 (never rounded), at a club championship and at an event without a class
  (no bounds).
\<close>

theorem class_rounder_witness:
  "getEventClassBounds ''3rd Class'' = Some \<lparr> min_val = Some 30, max_val = Some 39 \<rparr>
   \<and> getEventClassBounds ''Club Championship'' = None
   \<and> getEventClassBounds ''Open Doubles'' = None
   \<and> toLowerCase ''3rd Class'' = ''3rd class''
   \<and> roundForEvent 45 ''3rd Class'' = 39
   \<and> roundForEvent 25 ''3rd Class'' = 30
   \<and> roundForEvent 35 ''3rd Class'' = 35
   \<and> roundForEvent 15 ''3rd Class'' = 15
   \<and> roundForEvent 50 ''Club Championship'' = 50
   \<and> roundForEvent 50 ''Open Doubles'' = 50"
proof -
  let ?b = "\<lparr> min_val = Some (30::rat), max_val = Some (39::rat) \<rparr>"
  have l: "toLowerCase ''3rd Class'' = ''3rd class''"
    by code_simp
  have "sublist ''3rd'' (''3rd'' @ '' class'')"
    by (rule sublist_append_rightI)
  then have s3: "sublist ''3rd'' ''3rd class''" by simp
  have s: "\<not> sublist ''club'' ''3rd class''" "\<not> sublist ''championship'' ''3rd class''"
    "\<not> sublist ''champ'' ''3rd class''" "\<not> sublist ''4th'' ''3rd class''"
    by code_simp+
  have b: "getEventClassBounds ''3rd Class'' = Some ?b"
    using class_rounder [of 0 None "''3rd Class''"] s s3 unfolding l by simp
  have n: "getEventClassBounds ''Club Championship'' = None"
    by code_simp
  have o: "getEventClassBounds ''Open Doubles'' = None"
    by code_simp
  have 1: "roundForEvent 45 ''3rd Class'' = 39"
    using class_rounder [of 45 None "''3rd Class''"] b by simp
  have 2: "roundForEvent 25 ''3rd Class'' = 30"
    using class_rounder [of 25 None "''3rd Class''"] b by simp
  have 3: "roundForEvent 35 ''3rd Class'' = 35"
    using class_rounder [of 35 None "''3rd Class''"] b by simp
  have 4: "roundForEvent 15 ''3rd Class'' = 15"
    using class_rounder [of 15 None "''3rd Class''"] by simp
  have 5: "roundForEvent 50 ''Club Championship'' = 50"
    using class_rounder [of 50 None "''Club Championship''"] n by simp
  have 6: "roundForEvent 50 ''Open Doubles'' = 50"
    using class_rounder [of 50 None "''Open Doubles''"] o by simp
  show ?thesis using b n o l 1 2 3 4 5 6 by simp
qed

section \<open>Properties of the bracket builder and of the entry checks\<close>

lemma buildMatch_cells:
  assumes "2 * i + 1 < length slots" "slots ! (2 * i) = Cell a" "slots ! (2 * i + 1) = Cell b"
  shows "buildMatch slots i =
           \<lparr> matchNumber = i + 1, player1 = Some a, player2 = Some b,
             winner = (if isBye b then Some a else if isBye a then Some b else None) \<rparr>"
  using assms by (simp add: buildMatch_def js_get_def or_null_def mult.commute)

lemma matches_nth:
  assumes "2 * i < length slots"
  shows "matches (buildRound1 slots) ! i = buildMatch slots i"
  using assms by (simp add: buildRound1_def)

lemma matches_length: "length (matches (buildRound1 slots)) = (length slots + 1) div 2"
  by (simp add: buildRound1_def)

text \<open>
  Claim C3, as amended. \<open>buildRound1\<close> makes one match for every pair of slots; match
  \<open>i + 1\<close> holds slot \<open>2i\<close> as player 1 and slot \<open>2i + 1\<close> as player 2. The winner is the
  other side when exactly one side is a BYE, and null when neither is. When both sides
  are BYEs the winner is player 1, the BYE of slot \<open>2i\<close>: the test is only whether the
  opponent is a BYE.
\<close>

theorem build_round1_pairs:
  "length (matches (buildRound1 slots)) = (length slots + 1) div 2
   \<and> (even (length slots) \<longrightarrow> length (matches (buildRound1 slots)) = length slots div 2)
   \<and> (\<forall>i a b. 2 * i + 1 < length slots \<and> slots ! (2 * i) = Cell a \<and> slots ! (2 * i + 1) = Cell b \<longrightarrow>
         matchNumber (matches (buildRound1 slots) ! i) = i + 1
       \<and> player1 (matches (buildRound1 slots) ! i) = Some a
       \<and> player2 (matches (buildRound1 slots) ! i) = Some b
       \<and> (\<not> isBye a \<and> isBye b \<longrightarrow> winner (matches (buildRound1 slots) ! i) = Some a)
       \<and> (isBye a \<and> \<not> isBye b \<longrightarrow> winner (matches (buildRound1 slots) ! i) = Some b)
       \<and> (\<not> isBye a \<and> \<not> isBye b \<longrightarrow> winner (matches (buildRound1 slots) ! i) = None)
       \<and> (isBye a \<and> isBye b \<longrightarrow> winner (matches (buildRound1 slots) ! i) = Some a))"
proof (intro conjI allI impI)
  show "length (matches (buildRound1 slots)) = (length slots + 1) div 2"
    by (rule matches_length)
next
  assume "even (length slots)"
  then show "length (matches (buildRound1 slots)) = length slots div 2"
    by (simp add: matches_length)
next
  fix i a b
  assume h: "2 * i + 1 < length slots \<and> slots ! (2 * i) = Cell a \<and> slots ! (2 * i + 1) = Cell b"
  then have m: "matches (buildRound1 slots) ! i =
           \<lparr> matchNumber = i + 1, player1 = Some a, player2 = Some b,
             winner = (if isBye b then Some a else if isBye a then Some b else None) \<rparr>"
    using matches_nth [of i slots] buildMatch_cells [of i slots a b] by simp
  show "matchNumber (matches (buildRound1 slots) ! i) = i + 1" by (simp add: m)
  show "player1 (matches (buildRound1 slots) ! i) = Some a" by (simp add: m)
  show "player2 (matches (buildRound1 slots) ! i) = Some b" by (simp add: m)
  show "winner (matches (buildRound1 slots) ! i) = Some a" if "\<not> isBye a \<and> isBye b"
    using that by (simp add: m)
  show "winner (matches (buildRound1 slots) ! i) = Some b" if "isBye a \<and> \<not> isBye b"
    using that by (simp add: m)
  show "winner (matches (buildRound1 slots) ! i) = None" if "\<not> isBye a \<and> \<not> isBye b"
    using that by (simp add: m)
  show "winner (matches (buildRound1 slots) ! i) = Some a" if "isBye a \<and> isBye b"
    using that by (simp add: m)
qed

text \<open>
  Claim C3 as stated fails: in the slot array of three entrants in a bracket of eight,
  the first match has a BYE on both sides and its winner is not null.
\<close>

theorem build_round1_double_bye:
  "isBye createBye
   \<and> winner (matches (buildRound1
        [Cell createBye, Cell createBye,
         seeded_at (entrant ''b'' None) 2, Cell createBye,
         seeded_at (entrant ''c'' None) 4, Cell createBye,
         seeded_at (entrant ''a'' None) 6, Cell createBye]) ! 0) = Some createBye"
  by (simp add: buildRound1_def buildMatch_def js_get_def createBye_def upt_rec Let_def)

text \<open>
  The amended claim on a slot array with a match of each kind.
\<close>

theorem build_round1_pairs_witness:
  "winner (matches (buildRound1
        [Cell createBye, Cell createBye,
         seeded_at (entrant ''b'' None) 2, Cell createBye,
         seeded_at (entrant ''c'' None) 4, seeded_at (entrant ''a'' None) 5]) ! 1)
     = Some ((entrant ''b'' None)\<lparr> seed := Some 3 \<rparr>)
   \<and> winner (matches (buildRound1
        [Cell createBye, Cell createBye,
         seeded_at (entrant ''b'' None) 2, Cell createBye,
         seeded_at (entrant ''c'' None) 4, seeded_at (entrant ''a'' None) 5]) ! 2) = None
   \<and> winner (matches (buildRound1
        [Cell createBye, Cell createBye,
         seeded_at (entrant ''b'' None) 2, Cell createBye,
         seeded_at (entrant ''c'' None) 4, seeded_at (entrant ''a'' None) 5]) ! 0) = Some createBye"
proof -
  let ?s = "[Cell createBye, Cell createBye,
         seeded_at (entrant ''b'' None) 2, Cell createBye,
         seeded_at (entrant ''c'' None) 4, seeded_at (entrant ''a'' None) 5]"
  have b: "isBye createBye" by (simp add: createBye_def)
  have e: "\<not> isBye ((entrant n None)\<lparr> seed := Some k \<rparr>)" for n k
    by (simp add: entrant_def)
  have 1: "winner (matches (buildRound1 ?s) ! 1) = Some ((entrant ''b'' None)\<lparr> seed := Some 3 \<rparr>)"
    using build_round1_pairs [of ?s, THEN conjunct2, THEN conjunct2, rule_format,
        of 1 "(entrant ''b'' None)\<lparr> seed := Some 3 \<rparr>" createBye] b e
    by (simp add: seeded_at_def)
  have 2: "winner (matches (buildRound1 ?s) ! 2) = None"
    using build_round1_pairs [of ?s, THEN conjunct2, THEN conjunct2, rule_format,
        of 2 "(entrant ''c'' None)\<lparr> seed := Some 5 \<rparr>" "(entrant ''a'' None)\<lparr> seed := Some 6 \<rparr>"] e
    by (simp add: seeded_at_def)
  have 0: "winner (matches (buildRound1 ?s) ! 0) = Some createBye"
    using build_round1_pairs [of ?s, THEN conjunct2, THEN conjunct2, rule_format, of 0 createBye createBye] b
    by simp
  show ?thesis using 0 1 2 by simp
qed

lemma seed_empty: "seedParticipants [] bracketSize g = Inl EmptyInputError"
  by (simp add: seedParticipants_def)

lemma seed_invalid:
  assumes "participants \<noteq> []" "bracketSize \<notin> {8, 16, 32, 64, 128}"
  shows "seedParticipants participants bracketSize g = Inl InvalidSizeError"
  using assms by (simp add: seedParticipants_def)

lemma seed_valid:
  assumes "participants \<noteq> []" "bracketSize \<in> {8, 16, 32, 64, 128}"
  shows "seedParticipants participants bracketSize g = Inr (placeByAvailability participants bracketSize g)"
  using assms by (auto simp add: seedParticipants_def)

text \<open>
  Claim C7, as amended. The check for an empty participant list comes first: an empty
  list fails with \<open>EmptyInputError\<close> whatever the bracket size, and a bracket size outside
  8, 16, 32, 64, 128 fails with \<open>InvalidSizeError\<close> when the list is not empty. A failure
  is a message and nothing else, and these two are the only failures.
\<close>

theorem place_failures:
  "(participants = [] \<longrightarrow> seedParticipants participants bracketSize g = Inl EmptyInputError)
   \<and> (participants \<noteq> [] \<and> bracketSize \<notin> {8, 16, 32, 64, 128} \<longrightarrow>
        seedParticipants participants bracketSize g = Inl InvalidSizeError)
   \<and> (participants \<noteq> [] \<and> bracketSize \<in> {8, 16, 32, 64, 128} \<longrightarrow>
        (\<exists>r. seedParticipants participants bracketSize g = Inr r))
   \<and> EmptyInputError \<noteq> InvalidSizeError"
  using seed_empty seed_invalid seed_valid
  by (simp add: EmptyInputError_def InvalidSizeError_def)

text \<open>
  One call for each of the three cases.
\<close>

theorem place_failures_witness:
  "seedParticipants [] 8 zero_draws = Inl EmptyInputError
   \<and> seedParticipants [entrant ''a'' None] 12 zero_draws = Inl InvalidSizeError
   \<and> (\<exists>r. seedParticipants [entrant ''a'' None] 8 zero_draws = Inr r)"
  using place_failures [of "[]" 8 "zero_draws"]
        place_failures [of "[entrant ''a'' None]" 12 "zero_draws"]
        place_failures [of "[entrant ''a'' None]" 8 "zero_draws"]
  by simp

text \<open>
  Claim C7 as stated fails: with no participants and bracket size 7 the error is
  \<open>EmptyInputError\<close>, not \<open>InvalidSizeError\<close>.
\<close>

theorem empty_input_with_invalid_size:
  "seedParticipants [] 7 zero_draws = Inl EmptyInputError
   \<and> seedParticipants [] 7 zero_draws \<noteq> Inl InvalidSizeError"
  by (simp add: seedParticipants_def EmptyInputError_def InvalidSizeError_def)

section \<open>Properties of the placement engine\<close>

subsection \<open>Arrays\<close>

lemma js_get_js_set: "js_get (js_set xs i v) j = (if j = i then v else js_get xs j)"
  by (auto simp: js_get_def js_set_def nth_append)

lemma length_js_set: "i < length xs \<Longrightarrow> length (js_set xs i v) = length xs"
  by (simp add: js_set_def)

lemma js_get_replicate: "js_get (replicate n Null) i = (if i < n then Null else Undefined)"
  by (simp add: js_get_def)

subsection \<open>The shuffle is a permutation\<close>

lemma random_below_less: "0 < n \<Longrightarrow> fst (random_below n g) < n"
  by (cases g) (simp add: random_below_def)

lemma mset_shuffle_loop:
  "i < length arr \<Longrightarrow> mset (fst (shuffle_loop i arr g)) = mset arr"
proof (induction i arbitrary: arr g)
  case 0
  then show ?case by simp
next
  case (Suc i)
  obtain j g' where r: "random_below (Suc i + 1) g = (j, g')"
    by (cases "random_below (Suc i + 1) g")
  have "j < Suc i + 1"
    using random_below_less [of "Suc i + 1" g] r by simp
  then have j: "j < length arr" using Suc.prems by simp
  let ?arr = "arr[Suc i := arr ! j, j := arr ! Suc i]"
  have "mset ?arr = mset arr"
    using mset_swap [of j arr "Suc i"] j Suc.prems by simp
  moreover have "mset (fst (shuffle_loop i ?arr g')) = mset ?arr"
    using Suc.IH [of ?arr g'] Suc.prems by simp
  ultimately show ?case using r by simp
qed

lemma mset_shuffle: "mset (fst (shuffle xs g)) = mset xs"
proof (cases xs)
  case Nil
  then show ?thesis by (simp add: shuffle_def)
next
  case (Cons x ys)
  then show ?thesis by (simp add: shuffle_def mset_shuffle_loop)
qed

lemma set_shuffle: "set (fst (shuffle xs g)) = set xs"
  using mset_shuffle [of xs g] by (metis set_mset_mset)

lemma length_shuffle: "length (fst (shuffle xs g)) = length xs"
  using mset_shuffle [of xs g] by (metis size_mset)

lemma shuffle_slots_less:
  assumes "shuffle (matchSlots n) g = (slots, g')" "s \<in> set slots"
  shows "s < n"
proof -
  have "set slots = set (matchSlots n)"
    using set_shuffle [of "matchSlots n" g] assms(1) by simp
  then show ?thesis using assms(2) by (simp add: matchSlots_def)
qed

subsection \<open>What the loops preserve\<close>

text \<open>
  A property of the slot array that every write of the engine keeps: a write puts, at a
  position below the bracket size, either a BYE or a participant of the input with the seed
  of that position.
\<close>

lemma placePlayIns_keeps:
  assumes step: "\<And>r pos v. P r \<Longrightarrow> pos < bound \<Longrightarrow>
                   v = Cell createBye \<or> (\<exists>p\<in>ps. v = seeded_at p pos) \<Longrightarrow> P (js_set r pos v)"
    and "P result" "set grp \<subseteq> ps" "\<forall>s\<in>set slots. base + s * 2 + 1 < bound"
  shows "P (placePlayIns base grp slots result idx)"
  using assms(2-)
proof (induction slots arbitrary: result idx)
  case Nil
  then show ?case by simp
next
  case (Cons slot slots)
  let ?pos1 = "base + slot * 2"
  let ?pos2 = "base + slot * 2 + 1"
  have b: "?pos1 < bound" "?pos2 < bound" using Cons.prems(3) by auto
  define r1 where "r1 = (if idx < length grp then js_set result ?pos1 (seeded_at (grp ! idx) ?pos1) else result)"
  define i1 where "i1 = (if idx < length grp then idx + 1 else idx)"
  define r2 where "r2 = (if i1 < length grp then js_set r1 ?pos2 (seeded_at (grp ! i1) ?pos2) else r1)"
  define i2 where "i2 = (if i1 < length grp then i1 + 1 else i1)"
  have mem: "grp ! k \<in> ps" if "k < length grp" for k
    using that Cons.prems(2) nth_mem by blast
  have p1: "P r1"
  proof (cases "idx < length grp")
    case True
    then show ?thesis
      unfolding r1_def using Cons.prems(1) b(1) mem [of idx] step [of result ?pos1] by auto
  next
    case False
    then show ?thesis unfolding r1_def using Cons.prems(1) by simp
  qed
  have p2: "P r2"
  proof (cases "i1 < length grp")
    case True
    then show ?thesis
      unfolding r2_def using p1 b(2) mem [of i1] step [of r1 ?pos2] by auto
  next
    case False
    then show ?thesis unfolding r2_def using p1 by simp
  qed
  have "placePlayIns base grp (slot # slots) result idx = placePlayIns base grp slots r2 i2"
    by (simp add: r1_def i1_def r2_def i2_def Let_def)
  moreover have "P (placePlayIns base grp slots r2 i2)"
    using Cons.IH [of r2 i2] p2 Cons.prems(2,3) by simp
  ultimately show ?case by simp
qed

lemma placeByes_keeps:
  assumes step: "\<And>r pos v. P r \<Longrightarrow> pos < bound \<Longrightarrow>
                   v = Cell createBye \<or> (\<exists>p\<in>ps. v = seeded_at p pos) \<Longrightarrow> P (js_set r pos v)"
    and "P result" "set grp \<subseteq> ps" "\<forall>s\<in>set slots. base + s * 2 + 1 < bound"
  shows "P (placeByes base grp slots result idx)"
  using assms(2-)
proof (induction slots arbitrary: result idx)
  case Nil
  then show ?case by simp
next
  case (Cons slot slots)
  let ?pos1 = "base + slot * 2"
  let ?pos2 = "base + slot * 2 + 1"
  have b: "?pos1 < bound" "?pos2 < bound" using Cons.prems(3) by auto
  show ?case
  proof (cases "idx < length grp")
    case True
    let ?r = "js_set (js_set result ?pos1 (seeded_at (grp ! idx) ?pos1)) ?pos2 (Cell createBye)"
    have "grp ! idx \<in> ps"
      using True Cons.prems(2) nth_mem by blast
    then have "P (js_set result ?pos1 (seeded_at (grp ! idx) ?pos1))"
      using Cons.prems(1) b(1) step [of result ?pos1] by auto
    then have "P ?r" using b(2) step by blast
    then have "P (placeByes base grp slots ?r (idx + 1))"
      using Cons.IH [of ?r "idx + 1"] Cons.prems(2,3) by simp
    then show ?thesis using True by (simp add: Let_def)
  next
    case False
    let ?r = "js_set (js_set result ?pos1 (Cell createBye)) ?pos2 (Cell createBye)"
    have "P (js_set result ?pos1 (Cell createBye))"
      using Cons.prems(1) b(1) step by blast
    then have "P ?r" using b(2) step by blast
    then have "P (placeByes base grp slots ?r idx)"
      using Cons.IH [of ?r idx] Cons.prems(2,3) by simp
    then show ?thesis using False by (simp add: Let_def)
  qed
qed

lemma fold_keeps:
  assumes "P s" "\<And>x s. x \<in> set xs \<Longrightarrow> P s \<Longrightarrow> P (f x s)"
  shows "P (fold f xs s)"
  using assms by (induction xs arbitrary: s) auto

lemma fillNulls_keeps:
  assumes step: "\<And>r pos v. P r \<Longrightarrow> pos < bound \<Longrightarrow>
                   v = Cell createBye \<or> (\<exists>p\<in>ps. v = seeded_at p pos) \<Longrightarrow> P (js_set r pos v)"
    and "P result"
  shows "P (fillNulls bound result)"
  unfolding fillNulls_def
  by (rule fold_keeps) (use assms in auto)

lemma pureRandom_keeps:
  assumes step: "\<And>r pos v. P r \<Longrightarrow> pos < bracketSize \<Longrightarrow>
                   v = Cell createBye \<or> (\<exists>p\<in>ps. v = seeded_at p pos) \<Longrightarrow> P (js_set r pos v)"
    and init: "P (replicate bracketSize Null)"
    and sub: "set participants \<subseteq> ps"
  shows "P (placed (pureRandomPlayInPlacement participants bracketSize playInMatchCount g))"
proof -
  obtain shuffled g1 where sh: "shuffle participants g = (shuffled, g1)"
    by (cases "shuffle participants g")
  obtain shuffledSlots g2 where ss: "shuffle (matchSlots (bracketSize div 2)) g1 = (shuffledSlots, g2)"
    by (cases "shuffle (matchSlots (bracketSize div 2)) g1")
  have shuffled: "set shuffled \<subseteq> ps" "length shuffled = length participants"
    using set_shuffle [of participants g] length_shuffle [of participants g] sh sub by auto
  have slots: "s * 2 + 1 < bracketSize" if "s \<in> set shuffledSlots" for s
    using shuffle_slots_less [OF ss that] by arith
  have len_slots: "length shuffledSlots = bracketSize div 2"
    using length_shuffle [of "matchSlots (bracketSize div 2)" g1] ss by (simp add: matchSlots_def)
  have slot_at: "shuffledSlots ! i * 2 + 1 < bracketSize" if "i < bracketSize div 2" for i
    using slots [of "shuffledSlots ! i"] that len_slots by simp
  let ?none = "fold (\<lambda>i r.
                          let slot = shuffledSlots ! i; pos1 = slot * 2
                          in js_set (js_set r pos1 (Cell createBye)) (pos1 + 1) (Cell createBye))
                       [length shuffled..<bracketSize div 2]
                (fold (\<lambda>i r.
                             let slot = shuffledSlots ! i; pos1 = slot * 2
                             in js_set (js_set r pos1 (seeded_at (shuffled ! i) pos1))
                                       (pos1 + 1) (Cell createBye))
                          [0..<min (length shuffled) (bracketSize div 2)] (replicate bracketSize Null))"
  let ?some = "placeByes 0 (drop (playInMatchCount * 2) shuffled) (drop playInMatchCount shuffledSlots)
                 (placePlayIns 0 (take (playInMatchCount * 2) shuffled)
                    (take playInMatchCount shuffledSlots) (replicate bracketSize Null) 0) 0"
  have eq: "placed (pureRandomPlayInPlacement participants bracketSize playInMatchCount g) =
          fillNulls bracketSize (if playInMatchCount \<le> 0 then ?none else ?some)"
    by (simp add: pureRandomPlayInPlacement_def sh ss Let_def)
  have first: "P (fold (\<lambda>i r.
                             let slot = shuffledSlots ! i; pos1 = slot * 2
                             in js_set (js_set r pos1 (seeded_at (shuffled ! i) pos1))
                                       (pos1 + 1) (Cell createBye))
                          [0..<min (length shuffled) (bracketSize div 2)] (replicate bracketSize Null))"
  proof (rule fold_keeps [where P = P, OF init])
    fix i r
    assume i: "i \<in> set [0..<min (length shuffled) (bracketSize div 2)]" and r: "P r"
    then have "shuffled ! i \<in> ps" using shuffled(1) nth_mem [of i shuffled] by auto
    moreover have "shuffledSlots ! i * 2 + 1 < bracketSize" using slot_at [of i] i by simp
    ultimately show "P (let slot = shuffledSlots ! i; pos1 = slot * 2
                         in js_set (js_set r pos1 (seeded_at (shuffled ! i) pos1))
                                       (pos1 + 1) (Cell createBye))"
      using r step [of r "shuffledSlots ! i * 2"]
            step [of "js_set r (shuffledSlots ! i * 2) (seeded_at (shuffled ! i) (shuffledSlots ! i * 2))"
                     "shuffledSlots ! i * 2 + 1" "Cell createBye"]
      by (auto simp: Let_def)
  qed
  have none: "P ?none"
  proof (rule fold_keeps [where P = P, OF first])
    fix i r
    assume i: "i \<in> set [length shuffled..<bracketSize div 2]" and r: "P r"
    have "shuffledSlots ! i * 2 + 1 < bracketSize" using slot_at [of i] i by simp
    then show "P (let slot = shuffledSlots ! i; pos1 = slot * 2
                   in js_set (js_set r pos1 (Cell createBye)) (pos1 + 1) (Cell createBye))"
      using r step [of r "shuffledSlots ! i * 2" "Cell createBye"]
            step [of "js_set r (shuffledSlots ! i * 2) (Cell createBye)"
                     "shuffledSlots ! i * 2 + 1" "Cell createBye"]
      by (auto simp: Let_def)
  qed
  have tk: "set (take k shuffled) \<subseteq> ps" "set (drop k shuffled) \<subseteq> ps" for k
    using shuffled(1) set_take_subset [of k shuffled] set_drop_subset [of k shuffled] by auto
  have sl: "\<forall>s\<in>set (take k shuffledSlots). 0 + s * 2 + 1 < bracketSize"
           "\<forall>s\<in>set (drop k shuffledSlots). 0 + s * 2 + 1 < bracketSize" for k
    using slots in_set_takeD [of _ k shuffledSlots] in_set_dropD [of _ k shuffledSlots] by auto
  have "P (placePlayIns 0 (take (playInMatchCount * 2) shuffled)
                    (take playInMatchCount shuffledSlots) (replicate bracketSize Null) 0)"
    using placePlayIns_keeps [of P bracketSize ps, OF step init tk(1) sl(1)] by blast
  then have some: "P ?some"
    using placeByes_keeps [of P bracketSize ps, OF step _ tk(2) sl(2)] by blast
  have "P (if playInMatchCount \<le> 0 then ?none else ?some)"
    using none some by simp
  then have "P (fillNulls bracketSize (if playInMatchCount \<le> 0 then ?none else ?some))"
    using fillNulls_keeps [of P bracketSize ps, OF step] by blast
  then show ?thesis using eq by simp
qed

lemma sections_keep:
  assumes step: "\<And>r pos v. P r \<Longrightarrow> pos < bracketSize \<Longrightarrow>
                   v = Cell createBye \<or> (\<exists>p\<in>ps. v = seeded_at p pos) \<Longrightarrow> P (js_set r pos v)"
    and init: "P (replicate bracketSize Null)"
    and day: "set dayList \<subseteq> ps" and night: "set nightList \<subseteq> ps"
    and daySlots: "\<forall>s\<in>set daySlots. s < bracketSize div 2 div 2"
    and nightSlots: "\<forall>s\<in>set nightSlots. s < bracketSize div 2 div 2"
  shows "P (fillNulls bracketSize
             (placeByes (bracketSize div 2) (drop b nightList) (drop nb nightSlots)
               (placePlayIns (bracketSize div 2) (take b nightList) (take nb nightSlots)
                 (placeByes 0 (drop a dayList) (drop na daySlots)
                   (placePlayIns 0 (take a dayList) (take na daySlots)
                      (replicate bracketSize Null) 0) 0) 0) 0))"
proof -
  have tk: "set (take k dayList) \<subseteq> ps" "set (drop k dayList) \<subseteq> ps"
           "set (take k nightList) \<subseteq> ps" "set (drop k nightList) \<subseteq> ps" for k
    using day night set_take_subset [of k dayList] set_drop_subset [of k dayList]
          set_take_subset [of k nightList] set_drop_subset [of k nightList] by auto
  have d: "0 + s * 2 + 1 < bracketSize" if "s \<in> set daySlots" for s
  proof -
    have "s < bracketSize div 2 div 2" using daySlots that by blast
    then show ?thesis by arith
  qed
  have n: "bracketSize div 2 + s * 2 + 1 < bracketSize" if "s \<in> set nightSlots" for s
  proof -
    have "s < bracketSize div 2 div 2" using nightSlots that by blast
    then show ?thesis by arith
  qed
  have ds: "\<forall>s\<in>set (take k daySlots). 0 + s * 2 + 1 < bracketSize"
           "\<forall>s\<in>set (drop k daySlots). 0 + s * 2 + 1 < bracketSize" for k
    using d in_set_takeD [of _ k daySlots] in_set_dropD [of _ k daySlots] by blast+
  have ns: "\<forall>s\<in>set (take k nightSlots). bracketSize div 2 + s * 2 + 1 < bracketSize"
           "\<forall>s\<in>set (drop k nightSlots). bracketSize div 2 + s * 2 + 1 < bracketSize" for k
    using n in_set_takeD [of _ k nightSlots] in_set_dropD [of _ k nightSlots] by blast+
  let ?r1 = "placePlayIns 0 (take a dayList) (take na daySlots) (replicate bracketSize Null) 0"
  let ?r2 = "placeByes 0 (drop a dayList) (drop na daySlots) ?r1 0"
  let ?r3 = "placePlayIns (bracketSize div 2) (take b nightList) (take nb nightSlots) ?r2 0"
  let ?r4 = "placeByes (bracketSize div 2) (drop b nightList) (drop nb nightSlots) ?r3 0"
  have "P ?r1"
    using placePlayIns_keeps [of P bracketSize ps, OF step init tk(1) ds(1)] by blast
  then have "P ?r2"
    using placeByes_keeps [of P bracketSize ps, OF step _ tk(2) ds(2)] by blast
  then have "P ?r3"
    using placePlayIns_keeps [of P bracketSize ps, OF step _ tk(3) ns(1)] by blast
  then have "P ?r4"
    using placeByes_keeps [of P bracketSize ps, OF step _ tk(4) ns(2)] by blast
  then show ?thesis
    using fillNulls_keeps [of P bracketSize ps, OF step] by blast
qed

lemma partial_keeps:
  assumes step: "\<And>r pos v. P r \<Longrightarrow> pos < bracketSize \<Longrightarrow>
                   v = Cell createBye \<or> (\<exists>p\<in>ps. v = seeded_at p pos) \<Longrightarrow> P (js_set r pos v)"
    and init: "P (replicate bracketSize Null)"
    and sub: "set participants \<subseteq> ps"
    and partial: "length participants \<noteq> bracketSize"
  shows "P (placed (placeByAvailability participants bracketSize g))"
proof -
  let ?day = "filter (\<lambda>p. availability p = Some ''D'') participants"
  let ?night = "filter (\<lambda>p. availability p \<noteq> Some ''D'' \<and> availability p = Some ''N'') participants"
  show ?thesis
  proof (cases "length ?day > 0 \<or> length ?night > 0")
    case False
    then show ?thesis
      using partial pureRandom_keeps [of P bracketSize ps participants, OF step init sub]
      by (simp add: placeByAvailability_def Let_def)
  next
    case True
    obtain shuffledDay g1 where sh1: "shuffle ?day g = (shuffledDay, g1)"
      by (cases "shuffle ?day g")
    obtain shuffledNight g2 where sh2: "shuffle ?night g1 = (shuffledNight, g2)"
      by (cases "shuffle ?night g1")
    obtain daySlots g3 where sh3: "shuffle (matchSlots (bracketSize div 2 div 2)) g2 = (daySlots, g3)"
      by (cases "shuffle (matchSlots (bracketSize div 2 div 2)) g2")
    obtain nightSlots g4 where sh4: "shuffle (matchSlots (bracketSize div 2 div 2)) g3 = (nightSlots, g4)"
      by (cases "shuffle (matchSlots (bracketSize div 2 div 2)) g3")
    have d: "set shuffledDay \<subseteq> ps"
      using set_shuffle [of ?day g] sh1 sub by auto
    have n: "set shuffledNight \<subseteq> ps"
      using set_shuffle [of ?night g1] sh2 sub by auto
    have ds: "\<forall>s\<in>set daySlots. s < bracketSize div 2 div 2"
      using shuffle_slots_less [OF sh3] by blast
    have ns: "\<forall>s\<in>set nightSlots. s < bracketSize div 2 div 2"
      using shuffle_slots_less [OF sh4] by blast
    note core = sections_keep [of P bracketSize ps shuffledDay shuffledNight daySlots nightSlots,
        OF step init d n ds ns]
    have hasAv: "\<not> \<not> (length ?day > 0 \<or> length ?night > 0)"
      using True by simp
    show ?thesis
      unfolding placeByAvailability_def Let_def
      apply (simp only: partial hasAv if_False sh1 sh2 sh3 sh4 prod.case)
      apply (simp only: split: prod.split)
      apply (simp add: core)
      done
  qed
qed

lemma full_keeps:
  assumes step: "\<And>r pos v. P r \<Longrightarrow> pos < bracketSize \<Longrightarrow>
                   v = Cell createBye \<or> (\<exists>p\<in>ps. v = seeded_at p pos) \<Longrightarrow> P (js_set r pos v)"
    and init: "P (replicate bracketSize Null)"
    and sub: "set participants \<subseteq> ps"
    and av: "length (filter (\<lambda>p. availability p = Some ''D'') participants) > 0
             \<or> length (filter (\<lambda>p. availability p \<noteq> Some ''D'' \<and> availability p = Some ''N'')
                          participants) > 0"
  shows "P (placed (placeFullBracket participants bracketSize g))"
proof -
  let ?day = "filter (\<lambda>p. availability p = Some ''D'') participants"
  let ?night = "filter (\<lambda>p. availability p \<noteq> Some ''D'' \<and> availability p = Some ''N'') participants"
  let ?half = "bracketSize div 2"
  define Q where "Q s \<longleftrightarrow> P (fst s) \<and> length (fst s) = bracketSize" for s :: "cell list \<times> nat"
  have qstep: "Q (js_set r pos (seeded_at p pos), c')"
    if "Q (r, c)" "pos < bracketSize" "p \<in> ps" for r pos p c c'
    using that step [of r pos "seeded_at p pos"] by (auto simp add: Q_def length_js_set)
  have qinit: "Q (replicate bracketSize Null, c)" for c
    using init by (simp add: Q_def)
  have qcur: "Q (r, c') " if "Q (r, c)" for r c c'
    using that by (simp add: Q_def)
  obtain shuffledDay g1 where sh1: "shuffle ?day g = (shuffledDay, g1)"
    by (cases "shuffle ?day g")
  obtain shuffledNight g2 where sh2: "shuffle ?night g1 = (shuffledNight, g2)"
    by (cases "shuffle ?night g1")
  have d: "shuffledDay ! i \<in> ps" if "i < length shuffledDay" for i
    using set_shuffle [of ?day g] sh1 sub that nth_mem [of i shuffledDay] by auto
  have n: "shuffledNight ! i \<in> ps" if "i < length shuffledNight" for i
    using set_shuffle [of ?night g1] sh2 sub that nth_mem [of i shuffledNight] by auto
  let ?f1 = "\<lambda>i r. js_set r i (seeded_at (shuffledDay ! i) i)"
  let ?f2 = "\<lambda>i r. js_set r (?half + i) (seeded_at (shuffledNight ! i) (?half + i))"
  let ?f3 = "\<lambda>i (r, cursor).
                          if js_get r cursor = Null
                          then (js_set r cursor (seeded_at (shuffledDay ! i) cursor), cursor + 1)
                          else (r, cursor)"
  let ?f4 = "\<lambda>i (r, idx).
                          if nextEmpty r bracketSize idx < bracketSize
                          then (js_set r (nextEmpty r bracketSize idx)
                                  (seeded_at (shuffledNight ! i) (nextEmpty r bracketSize idx)),
                                nextEmpty r bracketSize idx)
                          else (r, nextEmpty r bracketSize idx)"
  let ?r1 = "fold ?f1 [0..<min (length shuffledDay) ?half] (replicate bracketSize Null)"
  let ?r2 = "fold ?f2 [0..<min (length shuffledNight) ?half] ?r1"
  let ?c = "if length shuffledDay < ?half then length shuffledDay else ?half"
  let ?s3 = "fold ?f3 [?half..<length shuffledDay] (?r2, ?c)"
  have 1: "Q (?r1, 0)"
  proof (rule fold_keeps [where P = "\<lambda>r. Q (r, 0)", OF qinit])
    fix i r
    assume i: "i \<in> set [0..<min (length shuffledDay) ?half]" and r: "Q (r, 0)"
    have "i < bracketSize" using i by auto
    then show "Q (?f1 i r, 0)"
      using i r qstep [of r 0 i "shuffledDay ! i" 0] d [of i] by auto
  qed
  have 2: "Q (?r2, 0)"
  proof (rule fold_keeps [where P = "\<lambda>r. Q (r, 0)", OF 1])
    fix i r
    assume i: "i \<in> set [0..<min (length shuffledNight) ?half]" and r: "Q (r, 0)"
    have "?half + i < bracketSize" using i by auto
    then show "Q (?f2 i r, 0)"
      using i r qstep [of r 0 "?half + i" "shuffledNight ! i" 0] n [of i]
      by (auto simp: Let_def)
  qed
  have 3: "Q ?s3"
  proof (rule fold_keeps [where P = Q])
    show "Q (?r2, ?c)" using 2 qcur by blast
  next
    fix i s
    assume i: "i \<in> set [?half..<length shuffledDay]" and s: "Q s"
    obtain r c where rc: "s = (r, c)" by (cases s)
    show "Q (?f3 i s)"
    proof (cases "js_get r c = Null")
      case True
      then have "c < length r" by (auto simp: js_get_def split: if_splits)
      then have "c < bracketSize" using s rc by (simp add: Q_def)
      then show ?thesis
        using True rc s i d [of i] qstep [of r c c "shuffledDay ! i" "c + 1"] by auto
    next
      case False
      then show ?thesis using rc s by simp
    qed
  qed
  obtain r3 c3 where s3: "?s3 = (r3, c3)" by (cases ?s3)
  let ?s4 = "fold ?f4 [?half..<length shuffledNight] (r3, ?half)"
  have 4: "Q ?s4"
  proof (rule fold_keeps [where P = Q])
    show "Q (r3, ?half)" using 3 s3 qcur [of r3 c3] by simp
  next
    fix i s
    assume i: "i \<in> set [?half..<length shuffledNight]" and s: "Q s"
    obtain r c where rc: "s = (r, c)" by (cases s)
    show "Q (?f4 i s)"
    proof (cases "nextEmpty r bracketSize c < bracketSize")
      case True
      then show ?thesis
        using rc s i n [of i]
          qstep [of r c "nextEmpty r bracketSize c" "shuffledNight ! i"
                   "nextEmpty r bracketSize c"]
        by (auto simp: Let_def)
    next
      case False
      then show ?thesis using rc s qcur [of r c] by (auto simp: Let_def)
    qed
  qed
  obtain r4 c4 where s4: "?s4 = (r4, c4)" by (cases ?s4)
  have hasAv: "\<not> \<not> (length ?day > 0 \<or> length ?night > 0)"
    using av by simp
  have "placed (placeFullBracket participants bracketSize g) = r4"
    unfolding placeFullBracket_def Let_def
    apply (simp only: hasAv if_False sh1 sh2 prod.case)
    apply (simp only: s3 prod.case s4)
    apply simp
    done
  then show ?thesis using 4 s4 by (simp add: Q_def)
qed

subsection \<open>Every path of the engine\<close>


lemma full_random_placed:
  assumes "filter (\<lambda>p. availability p = Some ''D'') participants = []"
    "filter (\<lambda>p. availability p \<noteq> Some ''D'' \<and> availability p = Some ''N'') participants = []"
  shows "placed (placeFullBracket participants bracketSize g) =
           map (\<lambda>(i, p). seeded_at p i) (enumerate 0 (fst (shuffle participants g)))"
  using assms by (simp add: placeFullBracket_def Let_def split: prod.split)

lemma placement_keeps:
  assumes step: "\<And>r pos v. P r \<Longrightarrow> pos < bracketSize \<Longrightarrow>
                   v = Cell createBye \<or> (\<exists>p\<in>ps. v = seeded_at p pos) \<Longrightarrow> P (js_set r pos v)"
    and init: "P (replicate bracketSize Null)"
    and sub: "set participants \<subseteq> ps"
    and full: "\<And>shuffled. set shuffled = set participants \<Longrightarrow> length shuffled = bracketSize \<Longrightarrow>
                 P (map (\<lambda>(i, p). seeded_at p i) (enumerate 0 shuffled))"
  shows "P (placed (placeByAvailability participants bracketSize g))"
proof (cases "length participants = bracketSize")
  case False
  then show ?thesis using partial_keeps [of P bracketSize ps participants, OF step init sub] by blast
next
  case True
  let ?day = "filter (\<lambda>p. availability p = Some ''D'') participants"
  let ?night = "filter (\<lambda>p. availability p \<noteq> Some ''D'' \<and> availability p = Some ''N'') participants"
  have eq: "placeByAvailability participants bracketSize g = placeFullBracket participants bracketSize g"
    using True by (simp add: placeByAvailability_def)
  show ?thesis
  proof (cases "length ?day > 0 \<or> length ?night > 0")
    case True
    then show ?thesis
      using eq full_keeps [of P bracketSize ps participants, OF step init sub] by simp
  next
    case False
    then have "placed (placeFullBracket participants bracketSize g) =
           map (\<lambda>(i, p). seeded_at p i) (enumerate 0 (fst (shuffle participants g)))"
      using full_random_placed by simp
    moreover have "P (map (\<lambda>(i, p). seeded_at p i) (enumerate 0 (fst (shuffle participants g))))"
      using full [of "fst (shuffle participants g)"] True set_shuffle [of participants g]
        length_shuffle [of participants g] by simp
    ultimately show ?thesis using eq by simp
  qed
qed

lemma placed_length:
  "length (placed (placeByAvailability participants bracketSize g)) = bracketSize"
proof (rule placement_keeps [where P = "\<lambda>r. length r = bracketSize" and ps = "set participants"])
  show "length (js_set r pos v) = bracketSize" if "length r = bracketSize" "pos < bracketSize" for r pos v
    using that by (simp add: length_js_set)
qed simp_all


text \<open>
  Claim C6, as amended. The engine does not compare the number of participants with the
  bracket size: with more participants than slots and a valid bracket size the call
  succeeds and returns a slot array of the length of the bracket.
\<close>

theorem oversized_input_placed:
  assumes "bracketSize \<in> {8, 16, 32, 64, 128}" "length participants > bracketSize"
  shows "\<exists>r. seedParticipants participants bracketSize g = Inr r
            \<and> length (placed r) = bracketSize"
proof -
  have ne: "participants \<noteq> []" using assms(2) by auto
  show ?thesis
    using seed_valid [OF ne assms(1)] placed_length by simp
qed


text \<open>
  The amended claim with nine entrants in a bracket of eight.
\<close>

theorem oversized_input_placed_witness:
  "\<exists>r. seedParticipants (entrants [''a'', ''b'', ''c'', ''d'', ''e'', ''f'', ''g'', ''h'', ''i''] None)
          8 zero_draws = Inr r
       \<and> length (placed r) = 8"
  using oversized_input_placed
          [of 8 "entrants [''a'', ''b'', ''c'', ''d'', ''e'', ''f'', ''g'', ''h'', ''i''] None" zero_draws]
  by (simp add: entrants_def)

text \<open>
  Claim C6 as stated fails: nine entrants in a bracket of eight are no error. The call
  succeeds, fills all eight cells with entrants and reports a bye count of -1.
\<close>

theorem nine_entrants_in_eight_slots:
  "(case seedParticipants (entrants [''a'', ''b'', ''c'', ''d'', ''e'', ''f'', ''g'', ''h'', ''i''] None)
           8 zero_draws of
      Inl e \<Rightarrow> False
    | Inr r \<Rightarrow> length (placed r) = 8 \<and> length (realEntries (placed r)) = 8
               \<and> st_byeCount (stats r) = - 1)"
  by code_simp

subsection \<open>The partial bracket has no null cell\<close>

text \<open>
  The loop that fills null cells ends both placements of a partial bracket, so every cell
  below the bracket size is filled there, whatever the input.
\<close>

lemma fillNulls_filled: "i < n \<Longrightarrow> js_get (fillNulls n x) i \<noteq> Null"
proof (induction n arbitrary: i)
  case 0
  then show ?case by simp
next
  case (Suc n)
  let ?f = "\<lambda>i r. if js_get r i = Null then js_set r i (Cell createBye) else r"
  have step: "fillNulls (Suc n) x = ?f n (fillNulls n x)"
    by (simp add: fillNulls_def)
  show ?case
  proof (cases "i = n")
    case True
    then show ?thesis by (simp add: step js_get_js_set)
  next
    case False
    then have "js_get (fillNulls n x) i \<noteq> Null" using Suc by simp
    then show ?thesis by (simp add: step js_get_js_set)
  qed
qed

lemma pureRandom_filled:
  "\<exists>x. placed (pureRandomPlayInPlacement participants bracketSize playInMatchCount g)
         = fillNulls bracketSize x"
  unfolding pureRandomPlayInPlacement_def Let_def
  apply (simp only: split: prod.split)
  apply (intro allI impI)
  apply (simp only: placement.select_convs)
  apply (rule exI, rule refl)
  done

lemma partial_filled:
  assumes "length participants \<noteq> bracketSize"
  shows "\<exists>x. placed (placeByAvailability participants bracketSize g) = fillNulls bracketSize x"
proof -
  let ?day = "filter (\<lambda>p. availability p = Some ''D'') participants"
  let ?night = "filter (\<lambda>p. availability p \<noteq> Some ''D'' \<and> availability p = Some ''N'') participants"
  show ?thesis
  proof (cases "length ?day > 0 \<or> length ?night > 0")
    case False
    then show ?thesis
      using assms pureRandom_filled by (simp add: placeByAvailability_def Let_def)
  next
    case True
    then have hasAv: "\<not> \<not> (length ?day > 0 \<or> length ?night > 0)" by simp
    show ?thesis
      unfolding placeByAvailability_def Let_def
      apply (simp only: assms hasAv if_False)
      apply (simp only: split: prod.split)
      apply (intro allI impI)
      apply (simp only: placement.select_convs)
      apply (rule exI, rule refl)
      done
  qed
qed

lemma partial_no_null:
  assumes "length participants \<noteq> bracketSize" "i < bracketSize"
  shows "placed (placeByAvailability participants bracketSize g) ! i \<noteq> Null"
proof -
  obtain x where "placed (placeByAvailability participants bracketSize g) = fillNulls bracketSize x"
    using partial_filled [OF assms(1)] by blast
  then have "js_get (placed (placeByAvailability participants bracketSize g)) i \<noteq> Null"
    using fillNulls_filled [OF assms(2)] by simp
  then show ?thesis
    using assms(2) by (simp add: js_get_def placed_length)
qed

subsection \<open>The random placement has the play-in matches that are due\<close>

text \<open>
  Without availability data the match slots of the play-ins and of the byes are distinct
  slots of one shuffled list: each play-in slot gets two real participants, each other
  slot a BYE in its second cell, and no later write touches them.
\<close>

lemma isReal_seeded: "\<not> isBye p \<Longrightarrow> isReal (seeded_at p pos)"
  by (simp add: isReal_def seeded_at_def)

lemma not_isReal_bye: "\<not> isReal (Cell createBye)"
  by (simp add: isReal_def createBye_def)

lemma placePlayIns_real:
  assumes "distinct slots" "\<forall>p\<in>set grp. \<not> isBye p" "idx + 2 * length slots \<le> length grp"
  shows "(\<forall>s\<in>set slots. isReal (js_get (placePlayIns base grp slots result idx) (base + s * 2))
                      \<and> isReal (js_get (placePlayIns base grp slots result idx) (base + s * 2 + 1)))
       \<and> (\<forall>j. (\<forall>s\<in>set slots. j \<noteq> base + s * 2 \<and> j \<noteq> base + s * 2 + 1) \<longrightarrow>
              js_get (placePlayIns base grp slots result idx) j = js_get result j)"
  using assms
proof (induction slots arbitrary: result idx)
  case Nil
  then show ?case by simp
next
  case (Cons slot slots)
  let ?pos1 = "base + slot * 2"
  let ?pos2 = "base + slot * 2 + 1"
  let ?r2 = "js_set (js_set result ?pos1 (seeded_at (grp ! idx) ?pos1)) ?pos2
               (seeded_at (grp ! (idx + 1)) ?pos2)"
  have i: "idx < length grp" "idx + 1 < length grp" using Cons.prems(3) by auto
  have step: "placePlayIns base grp (slot # slots) result idx = placePlayIns base grp slots ?r2 (idx + 2)"
    using i by (simp add: Let_def)
  have real: "\<not> isBye (grp ! idx)" "\<not> isBye (grp ! (idx + 1))"
    using i Cons.prems(2) nth_mem by blast+
  have ih: "(\<forall>s\<in>set slots. isReal (js_get (placePlayIns base grp slots ?r2 (idx + 2)) (base + s * 2))
                      \<and> isReal (js_get (placePlayIns base grp slots ?r2 (idx + 2)) (base + s * 2 + 1)))
       \<and> (\<forall>j. (\<forall>s\<in>set slots. j \<noteq> base + s * 2 \<and> j \<noteq> base + s * 2 + 1) \<longrightarrow>
              js_get (placePlayIns base grp slots ?r2 (idx + 2)) j = js_get ?r2 j)"
    using Cons.IH [of "idx + 2" ?r2] Cons.prems by simp
  have apart: "\<forall>s\<in>set slots. ?pos1 \<noteq> base + s * 2 \<and> ?pos1 \<noteq> base + s * 2 + 1
                           \<and> ?pos2 \<noteq> base + s * 2 \<and> ?pos2 \<noteq> base + s * 2 + 1"
  proof
    fix s assume "s \<in> set slots"
    then have "s \<noteq> slot" using Cons.prems(1) by auto
    then show "?pos1 \<noteq> base + s * 2 \<and> ?pos1 \<noteq> base + s * 2 + 1
                           \<and> ?pos2 \<noteq> base + s * 2 \<and> ?pos2 \<noteq> base + s * 2 + 1"
      by presburger
  qed
  have own: "js_get (placePlayIns base grp slots ?r2 (idx + 2)) ?pos1 = seeded_at (grp ! idx) ?pos1"
            "js_get (placePlayIns base grp slots ?r2 (idx + 2)) ?pos2 = seeded_at (grp ! (idx + 1)) ?pos2"
    using ih apart by (simp_all add: js_get_js_set)
  show ?case
  proof (intro conjI ballI allI impI)
    fix s assume s: "s \<in> set (slot # slots)"
    show "isReal (js_get (placePlayIns base grp (slot # slots) result idx) (base + s * 2))"
    proof (cases "s = slot")
      case True
      then show ?thesis using own(1) isReal_seeded [OF real(1)] by (simp only: step)
    next
      case False
      then have "s \<in> set slots" using s by simp
      then show ?thesis using ih by (simp only: step)
    qed
    show "isReal (js_get (placePlayIns base grp (slot # slots) result idx) (base + s * 2 + 1))"
    proof (cases "s = slot")
      case True
      then show ?thesis using own(2) isReal_seeded [OF real(2)] by (simp only: step)
    next
      case False
      then have "s \<in> set slots" using s by simp
      then show ?thesis using ih by (simp only: step)
    qed
  next
    fix j assume j: "\<forall>s\<in>set (slot # slots). j \<noteq> base + s * 2 \<and> j \<noteq> base + s * 2 + 1"
    then have "js_get (placePlayIns base grp slots ?r2 (idx + 2)) j = js_get ?r2 j"
      using ih by simp
    also have "\<dots> = js_get result j"
      using j by (simp add: js_get_js_set)
    finally show "js_get (placePlayIns base grp (slot # slots) result idx) j = js_get result j"
      by (simp only: step)
  qed
qed

lemma placeByes_bye:
  assumes "distinct slots"
  shows "(\<forall>s\<in>set slots. js_get (placeByes base grp slots result idx) (base + s * 2 + 1) = Cell createBye)
       \<and> (\<forall>j. (\<forall>s\<in>set slots. j \<noteq> base + s * 2 \<and> j \<noteq> base + s * 2 + 1) \<longrightarrow>
              js_get (placeByes base grp slots result idx) j = js_get result j)"
  using assms
proof (induction slots arbitrary: result idx)
  case Nil
  then show ?case by simp
next
  case (Cons slot slots)
  let ?pos1 = "base + slot * 2"
  let ?pos2 = "base + slot * 2 + 1"
  define v where "v = (if idx < length grp then seeded_at (grp ! idx) ?pos1 else Cell createBye)"
  define idx' where "idx' = (if idx < length grp then idx + 1 else idx)"
  let ?r2 = "js_set (js_set result ?pos1 v) ?pos2 (Cell createBye)"
  have step: "placeByes base grp (slot # slots) result idx = placeByes base grp slots ?r2 idx'"
    by (simp add: Let_def v_def idx'_def)
  have ih: "(\<forall>s\<in>set slots. js_get (placeByes base grp slots ?r2 idx') (base + s * 2 + 1) = Cell createBye)
       \<and> (\<forall>j. (\<forall>s\<in>set slots. j \<noteq> base + s * 2 \<and> j \<noteq> base + s * 2 + 1) \<longrightarrow>
              js_get (placeByes base grp slots ?r2 idx') j = js_get ?r2 j)"
    using Cons.IH [of ?r2 idx'] Cons.prems by simp
  have apart: "\<forall>s\<in>set slots. ?pos2 \<noteq> base + s * 2 \<and> ?pos2 \<noteq> base + s * 2 + 1"
  proof
    fix s assume "s \<in> set slots"
    then have "s \<noteq> slot" using Cons.prems(1) by auto
    then show "?pos2 \<noteq> base + s * 2 \<and> ?pos2 \<noteq> base + s * 2 + 1"
      by presburger
  qed
  have own: "js_get (placeByes base grp slots ?r2 idx') ?pos2 = Cell createBye"
    using ih apart by (simp add: js_get_js_set)
  show ?case
  proof (intro conjI ballI allI impI)
    fix s assume s: "s \<in> set (slot # slots)"
    show "js_get (placeByes base grp (slot # slots) result idx) (base + s * 2 + 1) = Cell createBye"
    proof (cases "s = slot")
      case True
      then show ?thesis using own by (simp only: step)
    next
      case False
      then have "s \<in> set slots" using s by simp
      then show ?thesis using ih by (simp only: step)
    qed
  next
    fix j assume j: "\<forall>s\<in>set (slot # slots). j \<noteq> base + s * 2 \<and> j \<noteq> base + s * 2 + 1"
    then have "js_get (placeByes base grp slots ?r2 idx') j = js_get ?r2 j"
      using ih by simp
    also have "\<dots> = js_get result j"
      using j by (simp add: js_get_js_set)
    finally show "js_get (placeByes base grp (slot # slots) result idx) j = js_get result j"
      by (simp only: step)
  qed
qed

lemma fillNulls_keeps_cell:
  "js_get x i \<noteq> Null \<Longrightarrow> js_get (fillNulls n x) i = js_get x i"
proof (induction n)
  case 0
  then show ?case by (simp add: fillNulls_def)
next
  case (Suc n)
  have step: "fillNulls (Suc n) x =
      (if js_get (fillNulls n x) n = Null then js_set (fillNulls n x) n (Cell createBye)
       else fillNulls n x)"
    by (simp add: fillNulls_def)
  show ?case using Suc by (auto simp: step js_get_js_set)
qed

lemma shuffled_slots:
  assumes "shuffle (matchSlots n) g = (slots, g')"
  shows "distinct slots" "set slots = {0..<n}" "length slots = n"
proof -
  have m: "mset slots = mset [0..<n]"
    using mset_shuffle [of "matchSlots n" g] assms by (simp add: matchSlots_def)
  show "distinct slots"
    using m mset_eq_imp_distinct_iff [of slots "[0..<n]"] by simp
  show "set slots = {0..<n}"
    using m mset_eq_setD [of slots "[0..<n]"] by simp
  show "length slots = n"
    using m mset_eq_length [of slots "[0..<n]"] by simp
qed

lemma real_match_iff:
  "(case (player1 (buildMatch slots i), player2 (buildMatch slots i)) of
      (Some a, Some b) \<Rightarrow> \<not> isBye a \<and> \<not> isBye b
    | _ \<Rightarrow> False)
   = (isReal (js_get slots (i * 2)) \<and> isReal (js_get slots (i * 2 + 1)))"
  by (cases "js_get slots (i * 2)"; cases "js_get slots (i * 2 + 1)")
     (simp_all add: buildMatch_def Let_def or_null_def isReal_def)

lemma length_realMatches:
  "length (realMatches slots) =
     length (filter (\<lambda>i. isReal (js_get slots (i * 2)) \<and> isReal (js_get slots (i * 2 + 1)))
               [0..<(length slots + 1) div 2])"
proof -
  have p: "(\<lambda>i. case (player1 (buildMatch slots i), player2 (buildMatch slots i)) of
                  (Some a, Some b) \<Rightarrow> \<not> isBye a \<and> \<not> isBye b
                | _ \<Rightarrow> False)
         = (\<lambda>i. isReal (js_get slots (i * 2)) \<and> isReal (js_get slots (i * 2 + 1)))"
    by (rule ext) (rule real_match_iff)
  show ?thesis
    by (simp only: realMatches_def buildRound1_def round.select_convs filter_map comp_def p length_map)
qed

lemma fold_slots_bye:
  assumes "distinct (map (\<lambda>k. slots ! k) ks)"
  shows "(\<forall>k\<in>set ks.
            js_get (fold (\<lambda>i r. js_set (js_set r (slots ! i * 2) (v i)) (slots ! i * 2 + 1) (Cell createBye))
                      ks r0) (slots ! k * 2 + 1) = Cell createBye)
       \<and> (\<forall>j. (\<forall>k\<in>set ks. j \<noteq> slots ! k * 2 \<and> j \<noteq> slots ! k * 2 + 1) \<longrightarrow>
            js_get (fold (\<lambda>i r. js_set (js_set r (slots ! i * 2) (v i)) (slots ! i * 2 + 1) (Cell createBye))
                      ks r0) j = js_get r0 j)"
  using assms
proof (induction ks arbitrary: r0)
  case Nil
  then show ?case by simp
next
  case (Cons k ks)
  let ?f = "\<lambda>i r. js_set (js_set r (slots ! i * 2) (v i)) (slots ! i * 2 + 1) (Cell createBye)"
  let ?r1 = "?f k r0"
  have step: "fold ?f (k # ks) r0 = fold ?f ks ?r1" by simp
  have ih: "(\<forall>k'\<in>set ks. js_get (fold ?f ks ?r1) (slots ! k' * 2 + 1) = Cell createBye)
       \<and> (\<forall>j. (\<forall>k'\<in>set ks. j \<noteq> slots ! k' * 2 \<and> j \<noteq> slots ! k' * 2 + 1) \<longrightarrow>
            js_get (fold ?f ks ?r1) j = js_get ?r1 j)"
    using Cons.IH [of ?r1] Cons.prems by simp
  have apart: "\<forall>k'\<in>set ks. slots ! k * 2 + 1 \<noteq> slots ! k' * 2 \<and> slots ! k * 2 + 1 \<noteq> slots ! k' * 2 + 1"
  proof
    fix k' assume k': "k' \<in> set ks"
    have "slots ! k \<notin> (\<lambda>k. slots ! k) ` set ks" using Cons.prems by simp
    moreover have "slots ! k' \<in> (\<lambda>k. slots ! k) ` set ks" using k' by (rule imageI)
    ultimately have "slots ! k' \<noteq> slots ! k" by metis
    then show "slots ! k * 2 + 1 \<noteq> slots ! k' * 2 \<and> slots ! k * 2 + 1 \<noteq> slots ! k' * 2 + 1"
      by presburger
  qed
  have own: "js_get (fold ?f ks ?r1) (slots ! k * 2 + 1) = Cell createBye"
    using ih apart by (simp add: js_get_js_set)
  show ?case
  proof (intro conjI ballI allI impI)
    fix k' assume k': "k' \<in> set (k # ks)"
    show "js_get (fold ?f (k # ks) r0) (slots ! k' * 2 + 1) = Cell createBye"
    proof (cases "k' = k")
      case True
      then show ?thesis using own by (simp only: step)
    next
      case False
      then have "k' \<in> set ks" using k' by simp
      then show ?thesis using ih by (simp only: step)
    qed
  next
    fix j assume j: "\<forall>k'\<in>set (k # ks). j \<noteq> slots ! k' * 2 \<and> j \<noteq> slots ! k' * 2 + 1"
    then have "js_get (fold ?f ks ?r1) j = js_get ?r1 j"
      using ih by simp
    also have "\<dots> = js_get r0 j"
      using j by (simp add: js_get_js_set)
    finally show "js_get (fold ?f (k # ks) r0) j = js_get r0 j"
      by (simp only: step)
  qed
qed

lemma distinct_nth_map:
  assumes "distinct slots" "distinct ks" "\<forall>k\<in>set ks. k < length slots"
  shows "distinct (map (\<lambda>k. slots ! k) ks)"
proof -
  have "inj_on (\<lambda>k. slots ! k) (set ks)"
    using assms(1,3) by (auto simp: inj_on_def nth_eq_iff_index_eq)
  then show ?thesis using assms(2) by (simp add: distinct_map)
qed

lemma pureRandom_length:
  "length (placed (pureRandomPlayInPlacement participants bracketSize k g)) = bracketSize"
proof (rule pureRandom_keeps [where P = "\<lambda>r. length r = bracketSize" and ps = "set participants"])
  show "length (js_set r pos v) = bracketSize" if "length r = bracketSize" "pos < bracketSize" for r pos v
    using that by (simp add: length_js_set)
qed simp_all

lemma pureRandom_play_in_count:
  assumes real: "\<forall>p\<in>set participants. \<not> isBye p"
    and lt: "length participants < bracketSize"
    and ev: "even bracketSize"
  shows "length (realMatches (placed (pureRandomPlayInPlacement participants bracketSize
                     (length participants - bracketSize div 2) g)))
         = length participants - bracketSize div 2"
proof -
  let ?n = "length participants"
  let ?half = "bracketSize div 2"
  let ?pic = "?n - ?half"
  let ?R = "placed (pureRandomPlayInPlacement participants bracketSize ?pic g)"
  let ?init = "replicate bracketSize Null"
  have bs: "bracketSize = 2 * ?half" using ev by auto
  obtain shuffled g1 where sh: "shuffle participants g = (shuffled, g1)"
    by (cases "shuffle participants g")
  obtain slots g2 where ss: "shuffle (matchSlots ?half) g1 = (slots, g2)"
    by (cases "shuffle (matchSlots ?half) g1")
  have sl: "distinct slots" "set slots = {0..<?half}" "length slots = ?half"
    using shuffled_slots [OF ss] by simp_all
  have pl: "length shuffled = ?n" and pr: "\<forall>p\<in>set shuffled. \<not> isBye p"
    using length_shuffle [of participants g] set_shuffle [of participants g] sh real by auto
  let ?f1 = "\<lambda>i r. js_set (js_set r (slots ! i * 2) (seeded_at (shuffled ! i) (slots ! i * 2)))
                       (slots ! i * 2 + 1) (Cell createBye)"
  let ?f2 = "\<lambda>i r. js_set (js_set r (slots ! i * 2) (Cell createBye))
                       (slots ! i * 2 + 1) (Cell createBye)"
  let ?r1 = "fold ?f1 [0..<min (length shuffled) ?half] ?init"
  let ?none = "fold ?f2 [length shuffled..<?half] ?r1"
  let ?x1 = "placePlayIns 0 (take (?pic * 2) shuffled) (take ?pic slots) ?init 0"
  let ?some = "placeByes 0 (drop (?pic * 2) shuffled) (drop ?pic slots) ?x1 0"
  have eq: "?R = fillNulls bracketSize (if ?pic \<le> 0 then ?none else ?some)"
    by (simp add: pureRandomPlayInPlacement_def sh ss Let_def)
  have len: "(length ?R + 1) div 2 = ?half"
    using bs by (simp add: pureRandom_length)
  let ?P = "\<lambda>i. isReal (js_get ?R (i * 2)) \<and> isReal (js_get ?R (i * 2 + 1))"
  have count: "length (realMatches ?R) = length (filter ?P [0..<?half])"
    using length_realMatches [of ?R] len by simp
  show ?thesis
  proof (cases "?pic = 0")
    case True
    then have le: "?n \<le> ?half" by simp
    have bye: "js_get ?none (i * 2 + 1) = Cell createBye" if i: "i < ?half" for i
    proof -
      obtain k where k: "k < ?half" "slots ! k = i"
        using i sl(2,3) in_set_conv_nth [of i slots] by auto
      have d1: "distinct (map (\<lambda>k. slots ! k) [0..<min (length shuffled) ?half])"
        using sl by (intro distinct_nth_map) auto
      have d2: "distinct (map (\<lambda>k. slots ! k) [length shuffled..<?half])"
        using sl by (intro distinct_nth_map) auto
      note a1 = fold_slots_bye [OF d1, of "\<lambda>i. seeded_at (shuffled ! i) (slots ! i * 2)" ?init]
      note a2 = fold_slots_bye [OF d2, of "\<lambda>i. Cell createBye" ?r1]
      show ?thesis
      proof (cases "k < ?n")
        case True
        then have "k \<in> set [0..<min (length shuffled) ?half]" using k(1) pl by simp
        then have 1: "js_get ?r1 (slots ! k * 2 + 1) = Cell createBye"
          using a1 by blast
        have "\<forall>k'\<in>set [length shuffled..<?half].
                 slots ! k * 2 + 1 \<noteq> slots ! k' * 2 \<and> slots ! k * 2 + 1 \<noteq> slots ! k' * 2 + 1"
        proof
          fix k' assume "k' \<in> set [length shuffled..<?half]"
          then have "k' \<noteq> k" "k' < length slots" using True pl sl(3) by auto
          then have "slots ! k' \<noteq> slots ! k"
            using sl(1,3) k(1) by (simp add: nth_eq_iff_index_eq)
          then show "slots ! k * 2 + 1 \<noteq> slots ! k' * 2 \<and> slots ! k * 2 + 1 \<noteq> slots ! k' * 2 + 1"
            by presburger
        qed
        then have "js_get ?none (slots ! k * 2 + 1) = js_get ?r1 (slots ! k * 2 + 1)"
          using a2 by blast
        then show ?thesis using 1 k(2) by simp
      next
        case False
        then have "k \<in> set [length shuffled..<?half]" using k(1) pl by simp
        then have "js_get ?none (slots ! k * 2 + 1) = Cell createBye"
          using a2 by blast
        then show ?thesis using k(2) by simp
      qed
    qed
    have "\<not> ?P i" if "i < ?half" for i
    proof -
      have "js_get ?R (i * 2 + 1) = Cell createBye"
        using bye [OF that] True eq fillNulls_keeps_cell [of ?none "i * 2 + 1" bracketSize] by simp
      then show ?thesis by (simp add: not_isReal_bye)
    qed
    then have "filter ?P [0..<?half] = []"
      by (simp add: filter_empty_conv)
    then show ?thesis using count True by simp
  next
    case False
    then have pos: "0 < ?pic" by simp
    have pic: "?pic < ?half" "?pic * 2 \<le> ?n" using lt bs pos by linarith+
    have lt1: "length (take ?pic slots) = ?pic" using pic(1) sl(3) by simp
    have lt2: "length (take (?pic * 2) shuffled) = ?pic * 2" using pic(2) pl by simp
    have dt: "distinct (take ?pic slots)" "distinct (drop ?pic slots)"
      using sl(1) by simp_all
    have disj: "set (take ?pic slots) \<inter> set (drop ?pic slots) = {}"
      using sl(1) by (rule set_take_disj_set_drop_if_distinct) simp
    have un: "set (take ?pic slots) \<union> set (drop ?pic slots) = {0..<?half}"
      using sl(2) set_append [of "take ?pic slots" "drop ?pic slots"] by simp
    have rt: "\<forall>p\<in>set (take (?pic * 2) shuffled). \<not> isBye p"
      using pr in_set_takeD by metis
    have en: "0 + 2 * length (take ?pic slots) \<le> length (take (?pic * 2) shuffled)"
      using lt1 lt2 by simp
    note a1 = placePlayIns_real [OF dt(1) rt en, of 0 ?init]
    note a2 = placeByes_bye [OF dt(2), of 0 "drop (?pic * 2) shuffled" ?x1 0]
    have R: "?R = fillNulls bracketSize ?some" using eq False by simp
    have in_play: "?P i" if i: "i \<in> set (take ?pic slots)" for i
    proof -
      have x1: "isReal (js_get ?x1 (i * 2))" "isReal (js_get ?x1 (i * 2 + 1))"
        using a1 i by auto
      have ap: "\<forall>s\<in>set (drop ?pic slots). i * 2 \<noteq> 0 + s * 2 \<and> i * 2 \<noteq> 0 + s * 2 + 1
                        \<and> i * 2 + 1 \<noteq> 0 + s * 2 \<and> i * 2 + 1 \<noteq> 0 + s * 2 + 1"
      proof
        fix s assume "s \<in> set (drop ?pic slots)"
        then have "i \<noteq> s" using i disj by auto
        then show "i * 2 \<noteq> 0 + s * 2 \<and> i * 2 \<noteq> 0 + s * 2 + 1
                        \<and> i * 2 + 1 \<noteq> 0 + s * 2 \<and> i * 2 + 1 \<noteq> 0 + s * 2 + 1"
          by presburger
      qed
      have "js_get ?some (i * 2) = js_get ?x1 (i * 2)" "js_get ?some (i * 2 + 1) = js_get ?x1 (i * 2 + 1)"
        using a2 ap by blast+
      then have s: "isReal (js_get ?some (i * 2))" "isReal (js_get ?some (i * 2 + 1))"
        using x1 by simp_all
      then have "js_get ?some (i * 2) \<noteq> Null" "js_get ?some (i * 2 + 1) \<noteq> Null"
        by (auto simp: isReal_def)
      then show ?thesis
        using s R fillNulls_keeps_cell [of ?some _ bracketSize] by simp
    qed
    have in_bye: "\<not> ?P i" if i: "i \<in> set (drop ?pic slots)" for i
    proof -
      have "js_get ?some (i * 2 + 1) = Cell createBye"
        using a2 i by auto
      then have "js_get ?R (i * 2 + 1) = Cell createBye"
        using R fillNulls_keeps_cell [of ?some "i * 2 + 1" bracketSize] by simp
      then show ?thesis by (simp add: not_isReal_bye)
    qed
    have "{i. ?P i} \<inter> set [0..<?half] = set (take ?pic slots)"
      using in_play in_bye un disj by auto
    then have "length (filter ?P [0..<?half]) = card (set (take ?pic slots))"
      using distinct_length_filter [of "[0..<?half]" ?P] by simp
    also have "\<dots> = ?pic"
      using dt(1) lt1 distinct_card [of "take ?pic slots"] by simp
    finally show ?thesis using count by simp
  qed
qed

text \<open>
  For a partial bracket of real participants without availability data, the number of
  round-1 matches between two real participants is \<open>max(0, n - bracketSize/2)\<close>, for every
  sequence of random draws.
\<close>

lemma random_path_play_in_count:
  assumes size: "bracketSize \<in> {8, 16, 32, 64, 128}"
    and some: "participants \<noteq> []"
    and partial: "length participants < bracketSize"
    and real: "\<forall>p\<in>set participants. \<not> isBye p"
    and untagged: "\<forall>p\<in>set participants. availability p \<noteq> Some ''D'' \<and> availability p \<noteq> Some ''N''"
  shows "\<exists>r. seedParticipants participants bracketSize g = Inr r
            \<and> int (length (realMatches (placed r)))
                = max 0 (int (length participants) - int bracketSize div 2)"
proof -
  have ev: "even bracketSize" using size by auto
  have day: "filter (\<lambda>p. availability p = Some ''D'') participants = []"
    using untagged by (simp add: filter_empty_conv)
  have night: "filter (\<lambda>p. availability p \<noteq> Some ''D'' \<and> availability p = Some ''N'') participants = []"
    using untagged by (simp add: filter_empty_conv)
  have pic: "nat (max 0 (int (length participants) - int (bracketSize div 2)))
               = length participants - bracketSize div 2"
    by simp
  have eq: "placeByAvailability participants bracketSize g =
          pureRandomPlayInPlacement participants bracketSize
            (length participants - bracketSize div 2) g"
    unfolding placeByAvailability_def Let_def
    using partial by (simp only: day night pic) simp
  have "length (realMatches (placed (placeByAvailability participants bracketSize g)))
          = length participants - bracketSize div 2"
    unfolding eq using real partial ev by (rule pureRandom_play_in_count)
  moreover have "int (length participants - bracketSize div 2)
          = max 0 (int (length participants) - int bracketSize div 2)"
    by (simp add: zdiv_int)
  ultimately show ?thesis
    using seed_valid [OF some size, of g] by simp
qed

subsection \<open>The random placement keeps every participant\<close>

text \<open>
  Every write of the random placement goes to a cell that is still null, so each real
  participant written adds one real entry, and a BYE adds none.
\<close>

lemma entries_append: "entries (xs @ ys) = entries xs + entries ys"
  by (simp add: entries_def realEntries_def)

lemma entries_Cons: "entries (c # cs) = entries [c] + entries cs"
  using entries_append [of "[c]" cs] by simp

lemma entries_seeded: "\<not> isBye p \<Longrightarrow> entries [seeded_at p pos] = {# p\<lparr> seed := None \<rparr> #}"
  by (simp add: entries_def realEntries_def seeded_at_def)

lemma entries_bye: "entries [Cell createBye] = {#}"
  by (simp add: entries_def realEntries_def createBye_def)

lemma entries_null: "entries [Null] = {#}"
  by (simp add: entries_def realEntries_def)

lemma entries_js_set:
  assumes "js_get r pos = Null"
  shows "entries (js_set r pos v) = entries r + entries [v]"
proof -
  have lt: "pos < length r" and nl: "r ! pos = Null"
    using assms by (auto simp: js_get_def split: if_splits)
  have "r = take pos r @ Null # drop (Suc pos) r"
    using lt nl id_take_nth_drop [of pos r] by simp
  then have 1: "entries r = entries (take pos r) + entries (drop (Suc pos) r)"
    using entries_append [of "take pos r" "Null # drop (Suc pos) r"]
          entries_Cons [of Null "drop (Suc pos) r"] by (simp add: entries_null)
  have "js_set r pos v = take pos r @ v # drop (Suc pos) r"
    using lt by (simp add: js_set_def upd_conv_take_nth_drop)
  then have "entries (js_set r pos v) = entries (take pos r) + (entries [v] + entries (drop (Suc pos) r))"
    using entries_append [of "take pos r" "v # drop (Suc pos) r"]
          entries_Cons [of v "drop (Suc pos) r"] by simp
  then show ?thesis using 1 by simp
qed

lemma entries_fillNulls: "entries (fillNulls n x) = entries x"
proof (induction n)
  case 0
  then show ?case by (simp add: fillNulls_def)
next
  case (Suc n)
  have step: "fillNulls (Suc n) x =
      (if js_get (fillNulls n x) n = Null then js_set (fillNulls n x) n (Cell createBye)
       else fillNulls n x)"
    by (simp add: fillNulls_def)
  show ?case using Suc by (simp add: step entries_js_set entries_bye)
qed

lemma entries_placePlayIns:
  assumes "distinct slots"
    and "\<forall>s\<in>set slots. js_get result (base + s * 2) = Null \<and> js_get result (base + s * 2 + 1) = Null"
    and "\<forall>p\<in>set grp. \<not> isBye p" "idx + 2 * length slots \<le> length grp"
  shows "entries (placePlayIns base grp slots result idx)
         = entries result
           + mset (map (\<lambda>p. p\<lparr> seed := None \<rparr>) (take (2 * length slots) (drop idx grp)))"
  using assms
proof (induction slots arbitrary: result idx)
  case Nil
  then show ?case by simp
next
  case (Cons slot slots)
  let ?pos1 = "base + slot * 2"
  let ?pos2 = "base + slot * 2 + 1"
  let ?r1 = "js_set result ?pos1 (seeded_at (grp ! idx) ?pos1)"
  let ?r2 = "js_set ?r1 ?pos2 (seeded_at (grp ! (idx + 1)) ?pos2)"
  have i: "idx < length grp" "idx + 1 < length grp" using Cons.prems(4) by auto
  have step: "placePlayIns base grp (slot # slots) result idx = placePlayIns base grp slots ?r2 (idx + 2)"
    using i by (simp add: Let_def)
  have real: "\<not> isBye (grp ! idx)" "\<not> isBye (grp ! (idx + 1))"
    using i Cons.prems(3) nth_mem by blast+
  have n1: "js_get result ?pos1 = Null" and n2: "js_get ?r1 ?pos2 = Null"
    using Cons.prems(2) by (simp_all add: js_get_js_set)
  have e2: "entries ?r2 = entries result + {# (grp ! idx)\<lparr> seed := None \<rparr> #}
                            + {# (grp ! (idx + 1))\<lparr> seed := None \<rparr> #}"
    using entries_js_set [OF n2] entries_js_set [OF n1] real by (simp add: entries_seeded)
  have fresh: "\<forall>s\<in>set slots. js_get ?r2 (base + s * 2) = Null \<and> js_get ?r2 (base + s * 2 + 1) = Null"
  proof
    fix s assume s: "s \<in> set slots"
    then have "s \<noteq> slot" using Cons.prems(1) by auto
    then have "base + s * 2 \<noteq> ?pos1 \<and> base + s * 2 \<noteq> ?pos2
               \<and> base + s * 2 + 1 \<noteq> ?pos1 \<and> base + s * 2 + 1 \<noteq> ?pos2"
      by presburger
    then show "js_get ?r2 (base + s * 2) = Null \<and> js_get ?r2 (base + s * 2 + 1) = Null"
      using s Cons.prems(2) by (simp add: js_get_js_set)
  qed
  have ih: "entries (placePlayIns base grp slots ?r2 (idx + 2))
         = entries ?r2 + mset (map (\<lambda>p. p\<lparr> seed := None \<rparr>) (take (2 * length slots) (drop (idx + 2) grp)))"
    using Cons.IH [OF _ fresh Cons.prems(3), of "idx + 2"] Cons.prems(1,4) by simp
  have "drop idx grp = grp ! idx # grp ! (idx + 1) # drop (idx + 2) grp"
    using i Cons_nth_drop_Suc [of idx grp] Cons_nth_drop_Suc [of "idx + 1" grp] by simp
  then have "take (2 * length (slot # slots)) (drop idx grp)
          = grp ! idx # grp ! (idx + 1) # take (2 * length slots) (drop (idx + 2) grp)"
    by simp
  then show ?case
    by (simp only: step ih e2) simp
qed

lemma entries_placeByes:
  assumes "distinct slots"
    and "\<forall>s\<in>set slots. js_get result (base + s * 2) = Null \<and> js_get result (base + s * 2 + 1) = Null"
    and "\<forall>p\<in>set grp. \<not> isBye p"
  shows "entries (placeByes base grp slots result idx)
         = entries result
           + mset (map (\<lambda>p. p\<lparr> seed := None \<rparr>) (take (length slots) (drop idx grp)))"
  using assms
proof (induction slots arbitrary: result idx)
  case Nil
  then show ?case by simp
next
  case (Cons slot slots)
  let ?pos1 = "base + slot * 2"
  let ?pos2 = "base + slot * 2 + 1"
  define v where "v = (if idx < length grp then seeded_at (grp ! idx) ?pos1 else Cell createBye)"
  define idx' where "idx' = (if idx < length grp then idx + 1 else idx)"
  let ?r1 = "js_set result ?pos1 v"
  let ?r2 = "js_set ?r1 ?pos2 (Cell createBye)"
  have step: "placeByes base grp (slot # slots) result idx = placeByes base grp slots ?r2 idx'"
    by (simp add: Let_def v_def idx'_def)
  have n1: "js_get result ?pos1 = Null" and n2: "js_get ?r1 ?pos2 = Null"
    using Cons.prems(2) by (simp_all add: js_get_js_set)
  have e2: "entries ?r2 = entries result + entries [v]"
    using entries_js_set [OF n2] entries_js_set [OF n1] by (simp add: entries_bye)
  have fresh: "\<forall>s\<in>set slots. js_get ?r2 (base + s * 2) = Null \<and> js_get ?r2 (base + s * 2 + 1) = Null"
  proof
    fix s assume s: "s \<in> set slots"
    then have "s \<noteq> slot" using Cons.prems(1) by auto
    then have "base + s * 2 \<noteq> ?pos1 \<and> base + s * 2 \<noteq> ?pos2
               \<and> base + s * 2 + 1 \<noteq> ?pos1 \<and> base + s * 2 + 1 \<noteq> ?pos2"
      by presburger
    then show "js_get ?r2 (base + s * 2) = Null \<and> js_get ?r2 (base + s * 2 + 1) = Null"
      using s Cons.prems(2) by (simp add: js_get_js_set)
  qed
  have ih: "entries (placeByes base grp slots ?r2 idx')
         = entries ?r2 + mset (map (\<lambda>p. p\<lparr> seed := None \<rparr>) (take (length slots) (drop idx' grp)))"
    using Cons.IH [OF _ fresh Cons.prems(3), of idx'] Cons.prems(1) by simp
  show ?case
  proof (cases "idx < length grp")
    case True
    then have "\<not> isBye (grp ! idx)" using Cons.prems(3) nth_mem by blast
    then have ev: "entries [v] = {# (grp ! idx)\<lparr> seed := None \<rparr> #}"
      using True by (simp add: v_def entries_seeded)
    have "drop idx grp = grp ! idx # drop (idx + 1) grp"
      using True Cons_nth_drop_Suc [of idx grp] by simp
    then have "take (length (slot # slots)) (drop idx grp)
                 = grp ! idx # take (length slots) (drop idx' grp)"
      using True by (simp add: idx'_def)
    then show ?thesis
      by (simp only: step ih e2 ev) simp
  next
    case False
    then have ev: "entries [v] = {#}" by (simp add: v_def entries_bye)
    have "drop idx grp = []" "drop idx' grp = []" using False by (simp_all add: idx'_def)
    then show ?thesis
      by (simp only: step ih e2 ev) simp
  qed
qed

lemma entries_replicate_null: "entries (replicate n Null) = {#}"
  by (induction n) (simp_all add: entries_def realEntries_def)

lemma entries_fold_slots:
  assumes "distinct (map (\<lambda>k. slots ! k) ks)"
    and "\<forall>k\<in>set ks. js_get r0 (slots ! k * 2) = Null \<and> js_get r0 (slots ! k * 2 + 1) = Null"
  shows "entries (fold (\<lambda>i r. js_set (js_set r (slots ! i * 2) (v i)) (slots ! i * 2 + 1) (Cell createBye))
                    ks r0)
         = entries r0 + sum_list (map (\<lambda>k. entries [v k]) ks)"
  using assms
proof (induction ks arbitrary: r0)
  case Nil
  then show ?case by simp
next
  case (Cons k ks)
  let ?f = "\<lambda>i r. js_set (js_set r (slots ! i * 2) (v i)) (slots ! i * 2 + 1) (Cell createBye)"
  let ?r1 = "js_set r0 (slots ! k * 2) (v k)"
  let ?r2 = "js_set ?r1 (slots ! k * 2 + 1) (Cell createBye)"
  have step: "fold ?f (k # ks) r0 = fold ?f ks ?r2" by simp
  have n1: "js_get r0 (slots ! k * 2) = Null" and n2: "js_get ?r1 (slots ! k * 2 + 1) = Null"
    using Cons.prems(2) by (simp_all add: js_get_js_set)
  have e2: "entries ?r2 = entries r0 + entries [v k]"
    using entries_js_set [OF n2] entries_js_set [OF n1] by (simp add: entries_bye)
  have fresh: "\<forall>k'\<in>set ks. js_get ?r2 (slots ! k' * 2) = Null \<and> js_get ?r2 (slots ! k' * 2 + 1) = Null"
  proof
    fix k' assume k': "k' \<in> set ks"
    have "slots ! k \<notin> (\<lambda>k. slots ! k) ` set ks" using Cons.prems(1) by simp
    moreover have "slots ! k' \<in> (\<lambda>k. slots ! k) ` set ks" using k' by (rule imageI)
    ultimately have "slots ! k' \<noteq> slots ! k" by metis
    then have "slots ! k' * 2 \<noteq> slots ! k * 2 \<and> slots ! k' * 2 \<noteq> slots ! k * 2 + 1
               \<and> slots ! k' * 2 + 1 \<noteq> slots ! k * 2 \<and> slots ! k' * 2 + 1 \<noteq> slots ! k * 2 + 1"
      by presburger
    then show "js_get ?r2 (slots ! k' * 2) = Null \<and> js_get ?r2 (slots ! k' * 2 + 1) = Null"
      using k' Cons.prems(2) by (simp add: js_get_js_set)
  qed
  have ih: "entries (fold ?f ks ?r2) = entries ?r2 + sum_list (map (\<lambda>k. entries [v k]) ks)"
    using Cons.IH [OF _ fresh] Cons.prems(1) by simp
  show ?case by (simp only: step ih e2) simp
qed

lemma sum_list_singletons: "sum_list (map (\<lambda>x. {# f x #}) xs) = mset (map f xs)"
  by (induction xs) simp_all

lemma sum_list_nth_singletons:
  "sum_list (map (\<lambda>k. {# f (xs ! k) #}) [0..<length xs]) = mset (map f xs)"
proof -
  have "map (\<lambda>k. {# f (xs ! k) #}) [0..<length xs] = map (\<lambda>x. {# f x #}) (map (\<lambda>k. xs ! k) [0..<length xs])"
    by simp
  then show ?thesis by (simp only: map_nth sum_list_singletons)
qed

lemma pureRandom_entries:
  assumes real: "\<forall>p\<in>set participants. \<not> isBye p"
    and lt: "length participants < bracketSize"
    and ev: "even bracketSize"
  shows "entries (placed (pureRandomPlayInPlacement participants bracketSize
                     (length participants - bracketSize div 2) g))
         = mset (map (\<lambda>p. p\<lparr> seed := None \<rparr>) participants)"
proof -
  let ?n = "length participants"
  let ?half = "bracketSize div 2"
  let ?pic = "?n - ?half"
  let ?R = "placed (pureRandomPlayInPlacement participants bracketSize ?pic g)"
  let ?init = "replicate bracketSize Null"
  let ?u = "\<lambda>p. p\<lparr> seed := None \<rparr>"
  have bs: "bracketSize = 2 * ?half" using ev by auto
  obtain shuffled g1 where sh: "shuffle participants g = (shuffled, g1)"
    by (cases "shuffle participants g")
  obtain slots g2 where ss: "shuffle (matchSlots ?half) g1 = (slots, g2)"
    by (cases "shuffle (matchSlots ?half) g1")
  have sl: "distinct slots" "set slots = {0..<?half}" "length slots = ?half"
    using shuffled_slots [OF ss] by simp_all
  have pl: "length shuffled = ?n" and pr: "\<forall>p\<in>set shuffled. \<not> isBye p"
    using length_shuffle [of participants g] set_shuffle [of participants g] sh real by auto
  have pm: "mset (map ?u shuffled) = mset (map ?u participants)"
    using mset_shuffle [of participants g] sh by (metis fst_conv mset_map)
  let ?f1 = "\<lambda>i r. js_set (js_set r (slots ! i * 2) (seeded_at (shuffled ! i) (slots ! i * 2)))
                       (slots ! i * 2 + 1) (Cell createBye)"
  let ?f2 = "\<lambda>i r. js_set (js_set r (slots ! i * 2) (Cell createBye))
                       (slots ! i * 2 + 1) (Cell createBye)"
  let ?r1 = "fold ?f1 [0..<min (length shuffled) ?half] ?init"
  let ?none = "fold ?f2 [length shuffled..<?half] ?r1"
  let ?x1 = "placePlayIns 0 (take (?pic * 2) shuffled) (take ?pic slots) ?init 0"
  let ?some = "placeByes 0 (drop (?pic * 2) shuffled) (drop ?pic slots) ?x1 0"
  have eq: "?R = fillNulls bracketSize (if ?pic \<le> 0 then ?none else ?some)"
    by (simp add: pureRandomPlayInPlacement_def sh ss Let_def)
  have init: "js_get ?init (s * 2) = Null \<and> js_get ?init (s * 2 + 1) = Null" if "s \<in> set slots" for s
  proof -
    have "s < ?half" using that sl(2) by simp
    then have "s * 2 + 1 < bracketSize" using bs by linarith
    then show ?thesis by (simp add: js_get_replicate)
  qed
  show ?thesis
  proof (cases "?pic = 0")
    case True
    then have le: "?n \<le> ?half" by simp
    have d1: "distinct (map (\<lambda>k. slots ! k) [0..<min (length shuffled) ?half])"
      using sl by (intro distinct_nth_map) auto
    have d2: "distinct (map (\<lambda>k. slots ! k) [length shuffled..<?half])"
      using sl by (intro distinct_nth_map) auto
    have f1: "\<forall>k\<in>set [0..<min (length shuffled) ?half].
                js_get ?init (slots ! k * 2) = Null \<and> js_get ?init (slots ! k * 2 + 1) = Null"
      using init sl(3) by simp
    have e1: "entries ?r1 = entries ?init
                + sum_list (map (\<lambda>k. entries [seeded_at (shuffled ! k) (slots ! k * 2)])
                              [0..<min (length shuffled) ?half])"
      by (rule entries_fold_slots [OF d1 f1])
    have "map (\<lambda>k. entries [seeded_at (shuffled ! k) (slots ! k * 2)]) [0..<min (length shuffled) ?half]
            = map (\<lambda>k. {# ?u (shuffled ! k) #}) [0..<length shuffled]"
      using le pl pr by (auto simp: entries_seeded)
    then have r1: "entries ?r1 = mset (map ?u shuffled)"
      using e1 by (simp only: sum_list_nth_singletons entries_replicate_null) simp
    have f2: "\<forall>k\<in>set [length shuffled..<?half].
                js_get ?r1 (slots ! k * 2) = Null \<and> js_get ?r1 (slots ! k * 2 + 1) = Null"
    proof
      fix k assume k: "k \<in> set [length shuffled..<?half]"
      have ap: "\<forall>k'\<in>set [0..<min (length shuffled) ?half].
                 slots ! k * 2 \<noteq> slots ! k' * 2 \<and> slots ! k * 2 \<noteq> slots ! k' * 2 + 1
                 \<and> slots ! k * 2 + 1 \<noteq> slots ! k' * 2 \<and> slots ! k * 2 + 1 \<noteq> slots ! k' * 2 + 1"
      proof
        fix k' assume "k' \<in> set [0..<min (length shuffled) ?half]"
        then have "k' \<noteq> k" "k' < length slots" "k < length slots" using k sl(3) by auto
        then have "slots ! k' \<noteq> slots ! k"
          using sl(1) by (simp add: nth_eq_iff_index_eq)
        then show "slots ! k * 2 \<noteq> slots ! k' * 2 \<and> slots ! k * 2 \<noteq> slots ! k' * 2 + 1
                 \<and> slots ! k * 2 + 1 \<noteq> slots ! k' * 2 \<and> slots ! k * 2 + 1 \<noteq> slots ! k' * 2 + 1"
          by presburger
      qed
      note un = fold_slots_bye [OF d1, of "\<lambda>i. seeded_at (shuffled ! i) (slots ! i * 2)" ?init,
                                THEN conjunct2, rule_format]
      have "js_get ?r1 (slots ! k * 2) = js_get ?init (slots ! k * 2)"
           "js_get ?r1 (slots ! k * 2 + 1) = js_get ?init (slots ! k * 2 + 1)"
        using un [of "slots ! k * 2"] un [of "slots ! k * 2 + 1"] ap by blast+
      moreover have "slots ! k \<in> set slots" using k sl(3) by simp
      ultimately show "js_get ?r1 (slots ! k * 2) = Null \<and> js_get ?r1 (slots ! k * 2 + 1) = Null"
        using init by simp
    qed
    have "entries ?none = entries ?r1
                + sum_list (map (\<lambda>k. entries [Cell createBye]) [length shuffled..<?half])"
      by (rule entries_fold_slots [OF d2 f2])
    then have "entries ?none = mset (map ?u shuffled)"
      using r1 by (simp add: entries_bye)
    then show ?thesis
      using True eq pm by (simp add: entries_fillNulls)
  next
    case False
    then have pos: "0 < ?pic" by simp
    have pic: "?pic < ?half" "?pic * 2 \<le> ?n" using lt bs pos by linarith+
    have lt1: "length (take ?pic slots) = ?pic" using pic(1) sl(3) by simp
    have lt2: "length (take (?pic * 2) shuffled) = ?pic * 2" using pic(2) pl by simp
    have lt3: "length (drop ?pic slots) = length (drop (?pic * 2) shuffled)"
      using sl(3) pl bs lt pos by simp
    have dt: "distinct (take ?pic slots)" "distinct (drop ?pic slots)"
      using sl(1) by simp_all
    have disj: "set (take ?pic slots) \<inter> set (drop ?pic slots) = {}"
      using sl(1) by (rule set_take_disj_set_drop_if_distinct) simp
    have rt: "\<forall>p\<in>set (take (?pic * 2) shuffled). \<not> isBye p"
      using pr in_set_takeD by metis
    have rd: "\<forall>p\<in>set (drop (?pic * 2) shuffled). \<not> isBye p"
      using pr in_set_dropD by metis
    have en: "0 + 2 * length (take ?pic slots) \<le> length (take (?pic * 2) shuffled)"
      using lt1 lt2 by simp
    have fr1: "\<forall>s\<in>set (take ?pic slots). js_get ?init (0 + s * 2) = Null \<and> js_get ?init (0 + s * 2 + 1) = Null"
    proof
      fix s assume "s \<in> set (take ?pic slots)"
      then have "s \<in> set slots" by (rule in_set_takeD)
      then show "js_get ?init (0 + s * 2) = Null \<and> js_get ?init (0 + s * 2 + 1) = Null"
        using init by simp
    qed
    have e1': "entries ?x1 = entries ?init
                 + mset (map ?u (take (2 * length (take ?pic slots)) (drop 0 (take (?pic * 2) shuffled))))"
      by (rule entries_placePlayIns [OF dt(1) fr1 rt en])
    have c: "2 * ?pic = ?pic * 2" by simp
    have tk: "take (2 * length (take ?pic slots)) (drop 0 (take (?pic * 2) shuffled))
                = take (?pic * 2) shuffled"
      by (simp only: lt1 c drop_0 take_take min.idem)
    have e1: "entries ?x1 = mset (map ?u (take (?pic * 2) shuffled))"
      by (simp only: e1' tk entries_replicate_null) simp
    note un = placePlayIns_real [OF dt(1) rt en, of 0 ?init, THEN conjunct2, rule_format]
    have fr2: "\<forall>s\<in>set (drop ?pic slots). js_get ?x1 (0 + s * 2) = Null \<and> js_get ?x1 (0 + s * 2 + 1) = Null"
    proof
      fix s assume s: "s \<in> set (drop ?pic slots)"
      have ap: "\<forall>t\<in>set (take ?pic slots). 0 + s * 2 \<noteq> 0 + t * 2 \<and> 0 + s * 2 \<noteq> 0 + t * 2 + 1
                        \<and> 0 + s * 2 + 1 \<noteq> 0 + t * 2 \<and> 0 + s * 2 + 1 \<noteq> 0 + t * 2 + 1"
      proof
        fix t assume "t \<in> set (take ?pic slots)"
        then have "s \<noteq> t" using s disj by auto
        then show "0 + s * 2 \<noteq> 0 + t * 2 \<and> 0 + s * 2 \<noteq> 0 + t * 2 + 1
                        \<and> 0 + s * 2 + 1 \<noteq> 0 + t * 2 \<and> 0 + s * 2 + 1 \<noteq> 0 + t * 2 + 1"
          by presburger
      qed
      have "js_get ?x1 (0 + s * 2) = js_get ?init (0 + s * 2)"
           "js_get ?x1 (0 + s * 2 + 1) = js_get ?init (0 + s * 2 + 1)"
        using un [of "0 + s * 2"] un [of "0 + s * 2 + 1"] ap by blast+
      moreover have "s \<in> set slots" using s by (rule in_set_dropD)
      ultimately show "js_get ?x1 (0 + s * 2) = Null \<and> js_get ?x1 (0 + s * 2 + 1) = Null"
        using init [of s] by simp
    qed
    have e2': "entries ?some = entries ?x1
            + mset (map ?u (take (length (drop ?pic slots)) (drop 0 (drop (?pic * 2) shuffled))))"
      by (rule entries_placeByes [OF dt(2) fr2 rd])
    have tk2: "take (length (drop ?pic slots)) (drop 0 (drop (?pic * 2) shuffled))
                 = drop (?pic * 2) shuffled"
      by (simp only: lt3 drop_0 take_all order_refl)
    have split: "mset (map ?u (take (?pic * 2) shuffled)) + mset (map ?u (drop (?pic * 2) shuffled))
                   = mset (map ?u shuffled)"
      by (metis append_take_drop_id map_append mset_append)
    have "entries ?some = mset (map ?u shuffled)"
      by (simp only: e2' tk2 e1 split)
    then show ?thesis
      using False eq pm by (simp add: entries_fillNulls)
  qed
qed

lemma length_realEntries: "length (realEntries slots) = length (filter isReal slots)"
proof (induction slots)
  case Nil
  then show ?case by (simp add: realEntries_def)
next
  case (Cons c cs)
  have "realEntries (c # cs) = realEntries [c] @ realEntries cs"
    by (simp add: realEntries_def)
  moreover have "length (realEntries [c]) = (if isReal c then 1 else 0)"
    by (cases c) (simp_all add: realEntries_def isReal_def)
  ultimately show ?case using Cons by simp
qed

lemma size_entries: "size (entries slots) = length (realEntries slots)"
  by (simp add: entries_def)

lemma placed_defined:
  "Undefined \<notin> set (placed (placeByAvailability participants bracketSize g))"
proof -
  let ?P = "\<lambda>r. length r = bracketSize \<and> Undefined \<notin> set r"
  have "?P (placed (placeByAvailability participants bracketSize g))"
  proof (rule placement_keeps [where P = ?P and ps = "set participants"])
    fix r pos v
    assume r: "?P r" and pos: "pos < bracketSize"
      and v: "v = Cell createBye \<or> (\<exists>p\<in>set participants. v = seeded_at p pos)"
    have "v \<noteq> Undefined" using v by (auto simp: seeded_at_def)
    moreover have "set (r[pos := v]) \<subseteq> insert v (set r)" by (rule set_update_subset_insert)
    ultimately show "?P (js_set r pos v)"
      using r pos by (auto simp: js_set_def)
  next
    show "?P (replicate bracketSize Null)" by simp
  next
    fix shuffled :: "participant list"
    assume "length shuffled = bracketSize"
    then show "?P (map (\<lambda>(i, p). seeded_at p i) (enumerate 0 shuffled))"
      by (auto simp: seeded_at_def)
  qed simp
  then show ?thesis by simp
qed

text \<open>
  For a partial bracket of real participants without availability data, the slot array
  holds every participant exactly once, and BYEs in its other cells, for every sequence
  of random draws.
\<close>

lemma random_path_entries:
  assumes size: "bracketSize \<in> {8, 16, 32, 64, 128}"
    and some: "participants \<noteq> []"
    and partial: "length participants < bracketSize"
    and real: "\<forall>p\<in>set participants. \<not> isBye p"
    and untagged: "\<forall>p\<in>set participants. availability p \<noteq> Some ''D'' \<and> availability p \<noteq> Some ''N''"
  shows "\<exists>r. seedParticipants participants bracketSize g = Inr r
            \<and> length (placed r) = bracketSize
            \<and> entries (placed r) = mset (map (\<lambda>p. p\<lparr> seed := None \<rparr>) participants)
            \<and> length (realEntries (placed r)) = length participants
            \<and> length (filter (\<lambda>c. \<not> isReal c) (placed r)) = bracketSize - length participants
            \<and> Null \<notin> set (placed r) \<and> Undefined \<notin> set (placed r)"
proof -
  let ?r = "placeByAvailability participants bracketSize g"
  have ev: "even bracketSize" using size by auto
  have day: "filter (\<lambda>p. availability p = Some ''D'') participants = []"
    using untagged by (simp add: filter_empty_conv)
  have night: "filter (\<lambda>p. availability p \<noteq> Some ''D'' \<and> availability p = Some ''N'') participants = []"
    using untagged by (simp add: filter_empty_conv)
  have pic: "nat (max 0 (int (length participants) - int (bracketSize div 2)))
               = length participants - bracketSize div 2"
    by simp
  have eq: "?r = pureRandomPlayInPlacement participants bracketSize
                   (length participants - bracketSize div 2) g"
    unfolding placeByAvailability_def Let_def
    using partial by (simp only: day night pic) simp
  have len: "length (placed ?r) = bracketSize" by (rule placed_length)
  have ent: "entries (placed ?r) = mset (map (\<lambda>p. p\<lparr> seed := None \<rparr>) participants)"
    unfolding eq using real partial ev by (rule pureRandom_entries)
  have cnt: "length (realEntries (placed ?r)) = length participants"
    using ent size_entries [of "placed ?r"] by simp
  have "length (filter isReal (placed ?r)) + length (filter (\<lambda>c. \<not> isReal c) (placed ?r))
          = length (placed ?r)"
    by (rule sum_length_filter_compl)
  then have byes: "length (filter (\<lambda>c. \<not> isReal c) (placed ?r)) = bracketSize - length participants"
    using cnt len length_realEntries [of "placed ?r"] by simp
  have nn: "Null \<notin> set (placed ?r)"
  proof
    assume "Null \<in> set (placed ?r)"
    then obtain i where "i < length (placed ?r)" "placed ?r ! i = Null"
      by (auto simp: in_set_conv_nth)
    then show False using partial_no_null [of participants bracketSize i g] partial len by simp
  qed
  show ?thesis
    using seed_valid [OF some size, of g] len ent cnt byes nn placed_defined by simp
qed

text \<open>
  A full bracket without availability data is the shuffled list itself, seeded by
  position.
\<close>

lemma entries_seeded_list:
  assumes "\<forall>p\<in>set xs. \<not> isBye p"
  shows "entries (map (\<lambda>(i, p). seeded_at p i) (enumerate k xs)) = mset (map (\<lambda>p. p\<lparr> seed := None \<rparr>) xs)"
  using assms
proof (induction xs arbitrary: k)
  case Nil
  then show ?case by (simp add: entries_def realEntries_def)
next
  case (Cons x xs)
  have "map (\<lambda>(i, p). seeded_at p i) (enumerate k (x # xs))
          = seeded_at x k # map (\<lambda>(i, p). seeded_at p i) (enumerate (Suc k) xs)"
    by simp
  then have "entries (map (\<lambda>(i, p). seeded_at p i) (enumerate k (x # xs)))
          = entries [seeded_at x k] + entries (map (\<lambda>(i, p). seeded_at p i) (enumerate (Suc k) xs))"
    using entries_Cons [of "seeded_at x k" "map (\<lambda>(i, p). seeded_at p i) (enumerate (Suc k) xs)"]
    by (simp only:)
  moreover have "entries (map (\<lambda>(i, p). seeded_at p i) (enumerate (Suc k) xs))
                   = mset (map (\<lambda>p. p\<lparr> seed := None \<rparr>) xs)"
    using Cons.IH [of "Suc k"] Cons.prems by simp
  moreover have "entries [seeded_at x k] = {# x\<lparr> seed := None \<rparr> #}"
    using Cons.prems by (simp add: entries_seeded)
  ultimately show ?case by simp
qed

lemma full_random_entries:
  assumes size: "bracketSize \<in> {8, 16, 32, 64, 128}"
    and full: "length participants = bracketSize"
    and real: "\<forall>p\<in>set participants. \<not> isBye p"
    and untagged: "\<forall>p\<in>set participants. availability p \<noteq> Some ''D'' \<and> availability p \<noteq> Some ''N''"
  shows "\<exists>r. seedParticipants participants bracketSize g = Inr r
            \<and> length (placed r) = bracketSize
            \<and> entries (placed r) = mset (map (\<lambda>p. p\<lparr> seed := None \<rparr>) participants)
            \<and> length (realEntries (placed r)) = bracketSize"
proof -
  let ?r = "placeByAvailability participants bracketSize g"
  have some: "participants \<noteq> []" using size full by auto
  have day: "filter (\<lambda>p. availability p = Some ''D'') participants = []"
    using untagged by (simp add: filter_empty_conv)
  have night: "filter (\<lambda>p. availability p \<noteq> Some ''D'' \<and> availability p = Some ''N'') participants = []"
    using untagged by (simp add: filter_empty_conv)
  have "?r = placeFullBracket participants bracketSize g"
    using full by (simp add: placeByAvailability_def)
  then have p: "placed ?r = map (\<lambda>(i, p). seeded_at p i) (enumerate 0 (fst (shuffle participants g)))"
    using full_random_placed [OF day night] by simp
  have sr: "\<forall>p\<in>set (fst (shuffle participants g)). \<not> isBye p"
    using real set_shuffle [of participants g] by simp
  have "entries (placed ?r) = mset (map (\<lambda>p. p\<lparr> seed := None \<rparr>) (fst (shuffle participants g)))"
    unfolding p using sr by (rule entries_seeded_list)
  also have "\<dots> = mset (map (\<lambda>p. p\<lparr> seed := None \<rparr>) participants)"
    using mset_shuffle [of participants g] by (metis mset_map)
  finally have ent: "entries (placed ?r) = mset (map (\<lambda>p. p\<lparr> seed := None \<rparr>) participants)" .
  have cnt: "length (realEntries (placed ?r)) = bracketSize"
    using ent size_entries [of "placed ?r"] full by simp
  show ?thesis
    using seed_valid [OF some size, of g] placed_length ent cnt by simp
qed

subsection \<open>The engine on inputs that it does not place in full\<close>

text \<open>
  The next three results hold for every sequence of random draws. A shuffled group of
  entrants is a list of entrants again, and the two match slots of a section of a bracket
  of eight come out in one of two orders; the engine is then run on each case.
\<close>

lemma shuffle_nil: "shuffle [] g = ([], g)"
  by (simp add: shuffle_def)

lemma shuffle_two_slots:
  assumes "shuffle (matchSlots 2) g = (slots, g')"
  shows "slots = [0, 1] \<or> slots = [1, 0]"
proof -
  obtain draws k where g: "g = (draws, k)" by (cases g)
  have "draws k mod 2 = 0 \<or> draws k mod 2 = 1" by arith
  then show ?thesis
    using assms g
    by (auto simp: shuffle_def matchSlots_def random_below_def numeral_2_eq_2 upt_rec)
qed

lemma entrants_subset:
  "set xs \<subseteq> set (entrants names a) \<Longrightarrow> \<exists>ns. xs = entrants ns a \<and> length ns = length xs"
proof (induction xs)
  case Nil
  then show ?case by (simp add: entrants_def)
next
  case (Cons x xs)
  then obtain ns where ns: "xs = entrants ns a" "length ns = length xs" by auto
  obtain n where "x = entrant n a" using Cons.prems by (auto simp: entrants_def)
  then have "x # xs = entrants (n # ns) a \<and> length (n # ns) = length (x # xs)"
    using ns by (simp add: entrants_def)
  then show ?case by blast
qed

lemma shuffle_entrants:
  assumes "shuffle (entrants names a) g = (shuffled, g')"
  shows "\<exists>ns. shuffled = entrants ns a \<and> length ns = length names"
proof -
  have "set shuffled = set (entrants names a)" "length shuffled = length names"
    using set_shuffle [of "entrants names a" g] length_shuffle [of "entrants names a" g] assms
    by (simp_all add: entrants_def)
  then show ?thesis using entrants_subset [of shuffled names a] by auto
qed

lemma list_of_7: "length xs = 7 \<Longrightarrow> \<exists>a b c d e f g. xs = [a, b, c, d, e, f, g]"
  by (auto simp: eval_nat_numeral length_Suc_conv)

lemma list_of_5: "length xs = 5 \<Longrightarrow> \<exists>a b c d e. xs = [a, b, c, d, e]"
  by (auto simp: eval_nat_numeral length_Suc_conv)

lemma list_of_3: "length xs = 3 \<Longrightarrow> \<exists>a b c. xs = [a, b, c]"
  by (auto simp: eval_nat_numeral length_Suc_conv)

lemma list_of_2: "length xs = 2 \<Longrightarrow> \<exists>a b. xs = [a, b]"
  by (auto simp: eval_nat_numeral length_Suc_conv)

lemma seven_day_array:
  assumes "dS = [0, 1] \<or> dS = [1, 0]" "nS = [0, 1] \<or> nS = [1, 0]"
  shows "length (realMatches (fillNulls 8 (placeByes 4 [] nS
                  (placePlayIns 4 [] [] (placeByes 0 (drop 6 (entrants [n0, n1, n2, n3, n4, n5, n6] (Some ''D''))) (drop 3 dS)
                     (placePlayIns 0 (take 6 (entrants [n0, n1, n2, n3, n4, n5, n6] (Some ''D''))) (take 3 dS) (replicate 8 Null) 0) 0) 0) 0))) = 2"
  using assms by (elim disjE; hypsubst; code_simp)

lemma five_two_array:
  assumes "dS = [0, 1] \<or> dS = [1, 0]" "nS = [0, 1] \<or> nS = [1, 0]"
  shows "length (realEntries (fillNulls 8
           (placeByes 4 (drop 2 (entrants [m0, m1] (Some ''N''))) (drop 1 nS)
             (placePlayIns 4 (take 2 (entrants [m0, m1] (Some ''N''))) (take 1 nS)
               (placeByes 0 (drop 4 (entrants [n0, n1, n2, n3, n4] (Some ''D''))) (drop 2 dS)
                 (placePlayIns 0 (take 4 (entrants [n0, n1, n2, n3, n4] (Some ''D''))) (take 2 dS)
                    (replicate 8 Null) 0) 0) 0) 0))) = 6"
  using assms by (elim disjE; hypsubst; code_simp)

text \<open>
  Claim C1 on seven entrants, all available by day, in a bracket of eight. Three play-in
  matches are due (the statistics of the result say so), but the Day section has two match
  slots: whatever the draws, the slot array has two matches between real participants.
\<close>

theorem seven_day_entrants_play_ins:
  "(case seedParticipants (entrants [''a'', ''b'', ''c'', ''d'', ''e'', ''f'', ''g''] (Some ''D'')) 8 g of
      Inl e \<Rightarrow> False
    | Inr r \<Rightarrow> length (realMatches (placed r)) = 2 \<and> st_playInMatches (stats r) = 3)"
proof -
  let ?ps = "entrants [''a'', ''b'', ''c'', ''d'', ''e'', ''f'', ''g''] (Some ''D'')"
  have day: "filter (\<lambda>p. availability p = Some ''D'') ?ps = ?ps"
    by (simp add: entrants_def entrant_def)
  have night: "filter (\<lambda>p. availability p \<noteq> Some ''D'' \<and> availability p = Some ''N'') ?ps = []"
    by (simp add: entrants_def entrant_def)
  have len: "length ?ps = 7" by (simp add: entrants_def)
  obtain sD g1 where sh1: "shuffle ?ps g = (sD, g1)" by (cases "shuffle ?ps g")
  obtain dS g3 where sh3: "shuffle (matchSlots 2) g1 = (dS, g3)" by (cases "shuffle (matchSlots 2) g1")
  obtain nS g4 where sh4: "shuffle (matchSlots 2) g3 = (nS, g4)" by (cases "shuffle (matchSlots 2) g3")
  obtain ns where ns: "sD = entrants ns (Some ''D'')" "length ns = 7"
    using shuffle_entrants [OF sh1] by auto
  obtain n0 n1 n2 n3 n4 n5 n6 where sD: "sD = entrants [n0, n1, n2, n3, n4, n5, n6] (Some ''D'')"
    using ns list_of_7 [of ns] by auto
  have l: "length sD = 7" using sD by (simp add: entrants_def)
  have rs: "round_share 3 7 7 = 3" by (simp add: round_share_def)
  have eq: "placeByAvailability ?ps 8 g =
     \<lparr> placed = fillNulls 8 (placeByes 4 [] nS
                  (placePlayIns 4 [] [] (placeByes 0 (drop 6 sD) (drop 3 dS)
                     (placePlayIns 0 (take 6 sD) (take 3 dS) (replicate 8 Null) 0) 0) 0) 0),
       participantCount = 7, bracketSize_out = 8,
       stats = \<lparr> st_dayPlayers = 7, st_nightPlayers = 0, st_playInMatches = 3,
                 st_playInParticipants = Some 6, st_byeToRound2 = Some 1,
                 st_dayPlayInMatches = Some (length (take 3 dS)),
                 st_nightPlayInMatches = Some 0,
                 st_fullBracket = False, st_randomPlacement = False, st_byeCount = 1 \<rparr> \<rparr>"
    unfolding placeByAvailability_def Let_def
    by (simp add: day night len sh1 sh3 sh4 shuffle_nil rs l)
  have "length (realMatches (placed (placeByAvailability ?ps 8 g))) = 2"
    unfolding eq sD
    using seven_day_array [OF shuffle_two_slots [OF sh3] shuffle_two_slots [OF sh4]] by simp
  moreover have "st_playInMatches (stats (placeByAvailability ?ps 8 g)) = 3"
    unfolding eq by simp
  moreover have "seedParticipants ?ps 8 g = Inr (placeByAvailability ?ps 8 g)"
    by (simp add: seedParticipants_def entrants_def)
  ultimately show ?thesis by simp
qed

text \<open>
  Claim C2 on five Day entrants and two Night entrants in a bracket of eight. The Day
  section holds four of the five: whatever the draws, the slot array has six real entries
  and two BYEs, while the result reports seven participants and one BYE.
\<close>

theorem five_day_two_night_entries:
  "(case seedParticipants (entrants [''a'', ''b'', ''c'', ''d'', ''e''] (Some ''D'')
                           @ entrants [''f'', ''g''] (Some ''N'')) 8 g of
      Inl e \<Rightarrow> False
    | Inr r \<Rightarrow> length (placed r) = 8 \<and> length (realEntries (placed r)) = 6
               \<and> participantCount r = 7 \<and> st_byeCount (stats r) = 1)"
proof -
  let ?ps = "entrants [''a'', ''b'', ''c'', ''d'', ''e''] (Some ''D'') @ entrants [''f'', ''g''] (Some ''N'')"
  let ?day = "entrants [''a'', ''b'', ''c'', ''d'', ''e''] (Some ''D'')"
  let ?night = "entrants [''f'', ''g''] (Some ''N'')"
  have day: "filter (\<lambda>p. availability p = Some ''D'') ?ps = ?day"
    by (simp add: entrants_def entrant_def)
  have night: "filter (\<lambda>p. availability p \<noteq> Some ''D'' \<and> availability p = Some ''N'') ?ps = ?night"
    by (simp add: entrants_def entrant_def)
  have len: "length ?ps = 7" "length ?day = 5" "length ?night = 2"
    by (simp_all add: entrants_def)
  obtain sD g1 where sh1: "shuffle ?day g = (sD, g1)" by (cases "shuffle ?day g")
  obtain sN g2 where sh2: "shuffle ?night g1 = (sN, g2)" by (cases "shuffle ?night g1")
  obtain dS g3 where sh3: "shuffle (matchSlots 2) g2 = (dS, g3)" by (cases "shuffle (matchSlots 2) g2")
  obtain nS g4 where sh4: "shuffle (matchSlots 2) g3 = (nS, g4)" by (cases "shuffle (matchSlots 2) g3")
  obtain ns where ns: "sD = entrants ns (Some ''D'')" "length ns = 5"
    using shuffle_entrants [OF sh1] by auto
  obtain n0 n1 n2 n3 n4 where sD: "sD = entrants [n0, n1, n2, n3, n4] (Some ''D'')"
    using ns list_of_5 [of ns] by auto
  obtain ms where ms: "sN = entrants ms (Some ''N'')" "length ms = 2"
    using shuffle_entrants [OF sh2] by auto
  obtain m0 m1 where sN: "sN = entrants [m0, m1] (Some ''N'')"
    using ms list_of_2 [of ms] by auto
  have rs: "round_share 3 5 7 = 2" by (simp add: round_share_def)
  have slots: "(8::nat) div 2 div 2 = 2" by simp
  have eq: "placeByAvailability ?ps 8 g =
     \<lparr> placed = fillNulls 8
           (placeByes 4 (drop 2 sN) (drop 1 nS)
             (placePlayIns 4 (take 2 sN) (take 1 nS)
               (placeByes 0 (drop 4 sD) (drop 2 dS)
                 (placePlayIns 0 (take 4 sD) (take 2 dS) (replicate 8 Null) 0) 0) 0) 0),
       participantCount = 7, bracketSize_out = 8,
       stats = \<lparr> st_dayPlayers = 5, st_nightPlayers = 2, st_playInMatches = 3,
                 st_playInParticipants = Some 6, st_byeToRound2 = Some 1,
                 st_dayPlayInMatches = Some (length (take 2 dS)),
                 st_nightPlayInMatches = Some (length (take 1 nS)),
                 st_fullBracket = False, st_randomPlacement = False, st_byeCount = 1 \<rparr> \<rparr>"
    unfolding placeByAvailability_def Let_def
    apply (simp only: day night len slots sh1 sh2 sh3 sh4 prod.case)
    apply (simp add: rs)
    done
  have s: "seedParticipants ?ps 8 g = Inr (placeByAvailability ?ps 8 g)"
    by (simp add: seedParticipants_def entrants_def)
  have a: "length (placed (placeByAvailability ?ps 8 g)) = 8"
    by (rule placed_length)
  have b: "length (realEntries (placed (placeByAvailability ?ps 8 g))) = 6"
    unfolding eq sD sN
    using five_two_array [OF shuffle_two_slots [OF sh3] shuffle_two_slots [OF sh4]] by simp
  have c: "participantCount (placeByAvailability ?ps 8 g) = 7"
    unfolding eq by simp
  have e: "st_byeCount (stats (placeByAvailability ?ps 8 g)) = 1"
    unfolding eq by simp
  show ?thesis
    by (simp only: s sum.case a b c e simp_thms)
qed

text \<open>
  Claim C4 on a full bracket of eight with five Day entrants and three Night entrants.
  The fifth Day entrant finds the cell after the Day block taken and is not placed;
  whatever the draws, the last cell stays null, for the full bracket has no loop that
  fills null cells.
\<close>

theorem full_bracket_leaves_null:
  "(case seedParticipants (entrants [''a'', ''b'', ''c'', ''d'', ''e''] (Some ''D'')
                           @ entrants [''f'', ''g'', ''h''] (Some ''N'')) 8 g of
      Inl e \<Rightarrow> False
    | Inr r \<Rightarrow> length (placed r) = 8 \<and> placed r ! 7 = Null
               \<and> length (realEntries (placed r)) = 7)"
proof -
  let ?ps = "entrants [''a'', ''b'', ''c'', ''d'', ''e''] (Some ''D'') @ entrants [''f'', ''g'', ''h''] (Some ''N'')"
  let ?day = "entrants [''a'', ''b'', ''c'', ''d'', ''e''] (Some ''D'')"
  let ?night = "entrants [''f'', ''g'', ''h''] (Some ''N'')"
  have day: "filter (\<lambda>p. availability p = Some ''D'') ?ps = ?day"
    by (simp add: entrants_def entrant_def)
  have night: "filter (\<lambda>p. availability p \<noteq> Some ''D'' \<and> availability p = Some ''N'') ?ps = ?night"
    by (simp add: entrants_def entrant_def)
  obtain sD g1 where sh1: "shuffle ?day g = (sD, g1)" by (cases "shuffle ?day g")
  obtain sN g2 where sh2: "shuffle ?night g1 = (sN, g2)" by (cases "shuffle ?night g1")
  obtain ns where ns: "sD = entrants ns (Some ''D'')" "length ns = 5"
    using shuffle_entrants [OF sh1] by auto
  obtain n0 n1 n2 n3 n4 where sD: "sD = entrants [n0, n1, n2, n3, n4] (Some ''D'')"
    using ns list_of_5 [of ns] by auto
  obtain ms where ms: "sN = entrants ms (Some ''N'')" "length ms = 3"
    using shuffle_entrants [OF sh2] by auto
  obtain m0 m1 m2 where sN: "sN = entrants [m0, m1, m2] (Some ''N'')"
    using ms list_of_3 [of ms] by auto
  have s: "seedParticipants ?ps 8 g = Inr (placeFullBracket ?ps 8 g)"
    by (simp add: seedParticipants_def placeByAvailability_def entrants_def)
  have a: "length (placed (placeFullBracket ?ps 8 g)) = 8"
    unfolding placeFullBracket_def Let_def
    apply (simp only: day night sh1 sh2 sD sN prod.case)
    apply code_simp
    done
  have b: "placed (placeFullBracket ?ps 8 g) ! 7 = Null"
    unfolding placeFullBracket_def Let_def
    apply (simp only: day night sh1 sh2 sD sN prod.case)
    apply code_simp
    done
  have c: "length (realEntries (placed (placeFullBracket ?ps 8 g))) = 7"
    unfolding placeFullBracket_def Let_def
    apply (simp only: day night sh1 sh2 sD sN prod.case)
    apply code_simp
    done
  show ?thesis
    by (simp only: s sum.case a b c simp_thms)
qed

end
